theory Spec2Isabelle
  imports Complex_Main "HOL-Library.Word" "HOL-Library.List_Lexorder"
begin

section \<open>Shared primitives\<close>

subsection \<open>The C library's \<open>rand()\<close>\<close>

text \<open>
  \<open>rand()\<close> is modelled by the sequence of values its successive calls return: \<open>rng k\<close> is
  the value of call number \<open>k\<close> (a non-negative \<open>int\<close> in C). Every function that calls
  \<open>rand()\<close> threads the number of calls made so far. A theorem that holds for every
  \<open>rng\<close> holds for every outcome of the generator, whatever the seed.
\<close>

type_synonym rng = "nat \<Rightarrow> nat"

definition rng_zero :: rng where
  "rng_zero k = 0"

definition rng_id :: rng where
  "rng_id k = k"

subsection \<open>Hyperslab selections of a dataspace\<close>

text \<open>
  The selection of a two-dimensional dataspace is the set of its selected coordinates
  (\<open>hsize_t\<close> pairs, read as naturals). \<open>H5Sselect_hyperslab\<close> is called with a start, a
  \<open>NULL\<close> stride and a block/count pair that describes one rectangle of \<open>block\<close> elements
  per dimension; \<open>H5S_SELECT_SET\<close> replaces the selection by the rectangle and
  \<open>H5S_SELECT_OR\<close> adds the rectangle to it. \<open>H5Sselect_none\<close> empties the selection and
  \<open>H5Sget_select_npoints\<close> counts it.
\<close>

type_synonym coord = "nat \<times> nat"

datatype seloper = H5S_SELECT_SET | H5S_SELECT_OR

type_synonym request = "seloper \<times> coord \<times> coord"

definition block_points :: "coord \<Rightarrow> coord \<Rightarrow> coord set" where
  "block_points start blk =
     {fst start ..< fst start + fst blk} \<times> {snd start ..< snd start + snd blk}"

definition H5Sselect_hyperslab :: "seloper \<Rightarrow> coord \<Rightarrow> coord \<Rightarrow> coord set \<Rightarrow> coord set" where
  "H5Sselect_hyperslab oper start blk sel =
     (case oper of
        H5S_SELECT_SET \<Rightarrow> block_points start blk
      | H5S_SELECT_OR \<Rightarrow> sel \<union> block_points start blk)"

definition H5Sselect_none :: "coord set" where
  "H5Sselect_none = {}"

definition H5Sget_select_npoints :: "coord set \<Rightarrow> nat" where
  "H5Sget_select_npoints sel = card sel"

subsection \<open>Fatal faults\<close>

text \<open>
  The ways a run leaves defined behaviour: an integer division or remainder by zero, a
  signed integer operation whose result does not fit its type, and a store past the end
  of a heap buffer.
\<close>

datatype crash = DivisionByZero | SignedOverflow | HeapOverflow

subsection \<open>Machine integers\<close>

text \<open>
  The largest \<open>int\<close> and \<open>long long\<close> of the platform (32 and 64 bits). Arithmetic on
  \<open>hsize_t\<close> and \<open>uint64_t\<close> is modulo \<open>2 ^ 64\<close>: \<open>hsize_sub\<close> is their subtraction.
\<close>

definition INT_MAX :: nat where "INT_MAX = 2 ^ 31 - 1"
definition LLONG_MAX :: nat where "LLONG_MAX = 2 ^ 63 - 1"

definition hsize_sub :: "nat \<Rightarrow> nat \<Rightarrow> nat" where
  "hsize_sub a b = (a + 2 ^ 64 - b mod 2 ^ 64) mod 2 ^ 64"

subsection \<open>Arithmetic in \<open>double\<close>\<close>

text \<open>
  A result of \<open>+\<close>, \<open>*\<close>, \<open>/\<close>, \<open>sqrt\<close> or of a conversion to \<open>double\<close> is the exact
  value rounded to the nearest number with a significand of 53 bits, a tie going to the
  even significand (IEEE 754 binary64, round to nearest; the exponent range is not
  modelled, the values met here being far from its ends). \<open>rne\<close> rounds to the nearest
  integer, ties to even; \<open>ulp x\<close> is the spacing of the doubles around \<open>x\<close>; \<open>dbl x\<close> is
  the double nearest to \<open>x\<close>.
\<close>

definition rne :: "real \<Rightarrow> int" where
  "rne x = (let f = \<lfloor>x\<rfloor> in
            if x - of_int f < 1 / 2 then f
            else if 1 / 2 < x - of_int f then f + 1
            else if even f then f else f + 1)"

definition ulp :: "real \<Rightarrow> real" where
  "ulp x = 2 powr (of_int \<lfloor>log 2 \<bar>x\<bar>\<rfloor> - 52)"

definition dbl :: "real \<Rightarrow> real" where
  "dbl x = (if x = 0 then 0 else of_int (rne (x / ulp x)) * ulp x)"

text \<open>
  The conversion \<open>(hsize_t)\<close> of a \<open>double\<close> truncates; it is defined in C for the values
  from 0 up to, not including, \<open>2 ^ 64\<close>.
\<close>

definition hsize_of_double :: "real \<Rightarrow> nat" where
  "hsize_of_double x = nat \<lfloor>x\<rfloor>"

section \<open>sparse.c: the density sweep\<close>

subsection \<open>Command line\<close>

text \<open>
  \<open>handler_t\<close>. The chunk dimensions are \<open>long long\<close>; the model reads them as naturals
  (below \<open>2 ^ 63\<close>) and so covers the runs in which they are not negative. The flags \<open>d\<close>
  and \<open>v\<close> of the source are the fields \<open>hand_d\<close> and \<open>hand_v\<close>.
\<close>

record handler_t =
  chunk_dim1 :: nat
  chunk_dim2 :: nat
  space_select :: int
  max_percent :: int
  hand_d :: int
  hand_v :: int

definition GROUP_NUM :: int where "GROUP_NUM = 10"
definition CHUNK_DIM1 :: nat where "CHUNK_DIM1 = 10"
definition CHUNK_DIM2 :: nat where "CHUNK_DIM2 = 100"
definition MAX_PERCENT :: nat where "MAX_PERCENT = 20"

text \<open>
  One option of the command line as \<open>getopt_long\<close> delivers it, with its argument already
  converted by \<open>atoll\<close> (\<open>-c AxB\<close>) or \<open>atoi\<close> (the others).
\<close>

datatype cmd_option =
    Opt_c nat nat
  | Opt_h
  | Opt_m int
  | Opt_s int
  | Opt_d int
  | Opt_v int

text \<open>The ways \<open>parse_command_line\<close> ends the process, and the status it passes to \<open>exit\<close>.\<close>

datatype parse_exit =
    HelpPage
  | InvalidDensity
  | InvalidSelection
  | InvalidDataFlag
  | InvalidVerbose

fun exit_status :: "parse_exit \<Rightarrow> int" where
  "exit_status HelpPage = 0"
| "exit_status InvalidDensity = 1"
| "exit_status InvalidSelection = 1"
| "exit_status InvalidDataFlag = 1"
| "exit_status InvalidVerbose = 1"

definition default_hand :: handler_t where
  "default_hand =
     \<lparr>chunk_dim1 = CHUNK_DIM1, chunk_dim2 = CHUNK_DIM2, space_select = 1,
      max_percent = GROUP_NUM, hand_d = 1, hand_v = 0\<rparr>"

text \<open>The \<open>while (getopt_long ...)\<close> loop: \<open>-h\<close> exits at once, the others set a field.\<close>

fun parse_options :: "cmd_option list \<Rightarrow> handler_t \<Rightarrow> parse_exit + handler_t" where
  "parse_options [] hand = Inr hand"
| "parse_options (Opt_c a b # os) hand =
     parse_options os (hand\<lparr>chunk_dim1 := a * 1024, chunk_dim2 := b * 1024\<rparr>)"
| "parse_options (Opt_h # os) hand = Inl HelpPage"
| "parse_options (Opt_m m # os) hand = parse_options os (hand\<lparr>max_percent := m\<rparr>)"
| "parse_options (Opt_s s # os) hand = parse_options os (hand\<lparr>space_select := s\<rparr>)"
| "parse_options (Opt_d x # os) hand = parse_options os (hand\<lparr>hand_d := x\<rparr>)"
| "parse_options (Opt_v x # os) hand = parse_options os (hand\<lparr>hand_v := x\<rparr>)"

text \<open>The checks at the end of \<open>parse_command_line\<close>, in the order of the source.\<close>

definition validate_hand :: "handler_t \<Rightarrow> parse_exit + handler_t" where
  "validate_hand hand =
     (if max_percent hand < 1 \<or> max_percent hand > 20 then Inl InvalidDensity
      else if space_select hand < 1 \<or> space_select hand > 3 then Inl InvalidSelection
      else if hand_d hand < 0 \<or> hand_d hand > 1 then Inl InvalidDataFlag
      else if hand_v hand < 0 \<or> hand_v hand > 1 then Inl InvalidVerbose
      else Inr hand)"

definition parse_command_line :: "cmd_option list \<Rightarrow> parse_exit + handler_t" where
  "parse_command_line opts =
     (case parse_options opts default_hand of
        Inl e \<Rightarrow> Inl e
      | Inr hand \<Rightarrow> validate_hand hand)"


subsection \<open>Selection generation: \<open>create_hyperslab\<close>\<close>

text \<open>
  The state \<open>create_hyperslab\<close> works on: the selection of the dataspace it is handed, the
  calls of \<open>H5Sselect_hyperslab\<close> made so far (operator, offset, block), the counter
  \<open>nelemts\<close>, and the number of \<open>rand()\<close> calls made.
\<close>

record hyper_state =
  hs_sel :: "coord set"
  hs_reqs :: "request list"
  hs_nelemts :: nat
  hs_rand :: nat


definition select_call :: "seloper \<Rightarrow> coord \<Rightarrow> coord \<Rightarrow> hyper_state \<Rightarrow> hyper_state" where
  "select_call oper start blk s =
     s\<lparr>hs_sel := H5Sselect_hyperslab oper start blk (hs_sel s),
       hs_reqs := hs_reqs s @ [(oper, start, blk)]\<rparr>"

text \<open>
  Topology 1, the body of the loop over \<open>j\<close> in row \<open>i\<close>: one random point in section
  \<open>j\<close> of width \<open>sections\<close>, set as the selection on the very first pass and added to it
  on the others. \<open>j\<close> is an \<open>int\<close> and \<open>sections\<close> at most 100, so the \<open>uint64_t\<close> sum
  \<open>j * sections + rand() % sections\<close> does not wrap; nor does \<open>nelemts++\<close>, which is
  executed at most \<open>INT_MAX * INT_MAX\<close> times.
\<close>

definition scattered_body :: "rng \<Rightarrow> nat \<Rightarrow> nat \<Rightarrow> nat \<Rightarrow> hyper_state \<Rightarrow> hyper_state" where
  "scattered_body rng sections i j s =
     (let start = (i, j * sections + rng (hs_rand s) mod sections);
          s1 = s\<lparr>hs_rand := hs_rand s + 1\<rparr>;
          s2 = (if i = 0 \<and> j = 0 then select_call H5S_SELECT_SET start (1, 1) s1
                else select_call H5S_SELECT_OR start (1, 1) s1)
      in s2\<lparr>hs_nelemts := hs_nelemts s2 + 1\<rparr>)"

text \<open>
  The loop \<open>for (j = 0; j < num_selections; j++)\<close>. The body takes a remainder by
  \<open>sections\<close>, and the counter \<open>j\<close> is an \<open>int\<close> compared with a \<open>uint64_t\<close>: \<open>j++\<close> at
  \<open>INT_MAX\<close> overflows.
\<close>

function scattered_cols ::
  "rng \<Rightarrow> nat \<Rightarrow> nat \<Rightarrow> nat \<Rightarrow> nat \<Rightarrow> hyper_state \<Rightarrow> crash + hyper_state" where
  "scattered_cols rng sections num_selections i j s =
     (if j < num_selections then
        (if sections = 0 then Inl DivisionByZero
         else if j = INT_MAX then Inl SignedOverflow
         else scattered_cols rng sections num_selections i (j + 1) (scattered_body rng sections i j s))
      else Inr s)"
  by pat_completeness auto
termination
  by (relation "measure (\<lambda>(rng, sections, num_selections, i, j, s). num_selections - j)") auto

text \<open>
  The loop \<open>for (i = 0; i < hand.chunk_dim1; i++)\<close> of topology 1; \<open>i\<close> is an \<open>int\<close> compared
  with a \<open>long long\<close>.
\<close>

function scattered_rows ::
  "rng \<Rightarrow> nat \<Rightarrow> nat \<Rightarrow> nat \<Rightarrow> nat \<Rightarrow> hyper_state \<Rightarrow> crash + hyper_state" where
  "scattered_rows rng sections num_selections dim1 i s =
     (if i < dim1 then
        (case scattered_cols rng sections num_selections i 0 s of
           Inl c \<Rightarrow> Inl c
         | Inr s1 \<Rightarrow>
             if i = INT_MAX then Inl SignedOverflow
             else scattered_rows rng sections num_selections dim1 (i + 1) s1)
      else Inr s)"
  by pat_completeness auto
termination
  by (relation "measure (\<lambda>(rng, sections, num_selections, dim1, i, s). dim1 - i)") auto

text \<open>
  Topology 3, the body of the loop over the rows: a run of \<open>blk1\<close> columns at the offset
  \<open>rand() % (hand.chunk_dim2 - block[1])\<close>, the subtraction being on \<open>hsize_t\<close>.
\<close>

definition contiguous_body :: "rng \<Rightarrow> nat \<Rightarrow> nat \<Rightarrow> nat \<Rightarrow> hyper_state \<Rightarrow> hyper_state" where
  "contiguous_body rng dim2 blk1 i s =
     (let start = (i, rng (hs_rand s) mod hsize_sub dim2 blk1);
          s1 = s\<lparr>hs_rand := hs_rand s + 1\<rparr>
      in if i = 0 then select_call H5S_SELECT_SET start (1, blk1) s1
         else select_call H5S_SELECT_OR start (1, blk1) s1)"

text \<open>
  The loop \<open>for (i = 0; i < hand.chunk_dim1; i++)\<close> of topology 3: the remainder of the
  body divides by zero when the run is as long as the row, and \<open>i++\<close> overflows at
  \<open>INT_MAX\<close>.
\<close>

function contiguous_rows ::
  "rng \<Rightarrow> nat \<Rightarrow> nat \<Rightarrow> nat \<Rightarrow> nat \<Rightarrow> hyper_state \<Rightarrow> crash + hyper_state" where
  "contiguous_rows rng dim1 dim2 blk1 i s =
     (if i < dim1 then
        (if hsize_sub dim2 blk1 = 0 then Inl DivisionByZero
         else if i = INT_MAX then Inl SignedOverflow
         else contiguous_rows rng dim1 dim2 blk1 (i + 1) (contiguous_body rng dim2 blk1 i s))
      else Inr s)"
  by pat_completeness auto
termination
  by (relation "measure (\<lambda>(rng, dim1, dim2, blk1, i, s). dim1 - i)") auto

text \<open>
  The extent of the rectangle of topology 2, \<open>hand.chunk_dim * sqrt(select_percent) / 10\<close>
  stored in an \<open>hsize_t\<close>: the dimension is converted to \<open>double\<close> (the percentage, an
  \<open>int\<close>, converts exactly), and the square root, the product and the quotient are each
  rounded.
\<close>

definition rect_extent :: "nat \<Rightarrow> nat \<Rightarrow> nat" where
  "rect_extent dimen select_percent =
     hsize_of_double (dbl (dbl (dbl (real dimen) * dbl (sqrt (real select_percent))) / 10))"

text \<open>The length \<open>block[1]\<close> of the runs of topology 3.\<close>

definition run_length :: "handler_t \<Rightarrow> nat \<Rightarrow> nat" where
  "run_length hand select_percent = chunk_dim2 hand * select_percent div 100"

text \<open>
  \<open>create_hyperslab\<close>. The head of the function computes
  \<open>hand.chunk_dim2 * select_percent / 100\<close> in \<open>long long\<close> and \<open>100 / select_percent\<close> in
  \<open>int\<close>; the three branches follow. A fault ends the process (\<open>Inl\<close>): the overflow of
  that product, a division or remainder by zero (\<open>100 / select_percent\<close>,
  \<open>rand() % sections\<close>, \<open>rand() % (hand.chunk_dim / 2)\<close>,
  \<open>rand() % (hand.chunk_dim2 - block[1])\<close>), the overflow of a loop counter. The
  products \<open>block[0] * block[1]\<close> and \<open>hand.chunk_dim1 * block[1]\<close> are on \<open>uint64_t\<close> and
  wrap. The result is the final state; the value the function returns is its
  \<open>hs_nelemts\<close>.
\<close>

definition create_hyperslab ::
  "handler_t \<Rightarrow> rng \<Rightarrow> nat \<Rightarrow> hyper_state \<Rightarrow> crash + hyper_state" where
  "create_hyperslab hand rng select_percent s0 =
     (if select_percent = 0 then Inl DivisionByZero
      else if LLONG_MAX < chunk_dim2 hand * select_percent then Inl SignedOverflow
      else
        let num_selections = chunk_dim2 hand * select_percent div 100;
            sections = 100 div select_percent;
            s = s0\<lparr>hs_nelemts := 0\<rparr>
        in
        if space_select hand = 1 then
          scattered_rows rng sections num_selections (chunk_dim1 hand) 0 s
        else if space_select hand = 2 then
          (if chunk_dim1 hand div 2 = 0 then Inl DivisionByZero
           else if chunk_dim2 hand div 2 = 0 then Inl DivisionByZero
           else
             let start = (rng (hs_rand s) mod (chunk_dim1 hand div 2),
                          rng (hs_rand s + 1) mod (chunk_dim2 hand div 2));
                 blk = (rect_extent (chunk_dim1 hand) select_percent,
                        rect_extent (chunk_dim2 hand) select_percent);
                 s1 = select_call H5S_SELECT_SET start blk (s\<lparr>hs_rand := hs_rand s + 2\<rparr>)
             in Inr (s1\<lparr>hs_nelemts := (fst blk * snd blk) mod 2 ^ 64\<rparr>))
        else if space_select hand = 3 then
          (let blk1 = run_length hand select_percent in
           case contiguous_rows rng (chunk_dim1 hand) (chunk_dim2 hand) blk1 0 s of
             Inl c \<Rightarrow> Inl c
           | Inr s1 \<Rightarrow> Inr (s1\<lparr>hs_nelemts := (chunk_dim1 hand * blk1) mod 2 ^ 64\<rparr>))
        else Inr s)"

text \<open>The state of a dataspace on which nothing has been requested yet.\<close>

definition hs_init :: "coord set \<Rightarrow> hyper_state" where
  "hs_init sel = \<lparr>hs_sel = sel, hs_reqs = [], hs_nelemts = 0, hs_rand = 0\<rparr>"

text \<open>
  Closed forms of what topology 1 does in pass \<open>(i, j)\<close> of its loops, when \<open>rand()\<close>
  had been called \<open>k0\<close> times before the first pass: the point it requests and the
  operator it requests it with.
\<close>

definition scattered_point :: "rng \<Rightarrow> nat \<Rightarrow> nat \<Rightarrow> nat \<Rightarrow> nat \<times> nat \<Rightarrow> coord" where
  "scattered_point rng sections num_selections k0 ij =
     (fst ij, snd ij * sections + rng (k0 + fst ij * num_selections + snd ij) mod sections)"

definition scattered_oper :: "nat \<times> nat \<Rightarrow> seloper" where
  "scattered_oper ij = (if fst ij = 0 \<and> snd ij = 0 then H5S_SELECT_SET else H5S_SELECT_OR)"

subsection \<open>\<open>main\<close> of sparse.c\<close>

text \<open>
  What \<open>main\<close> does to the outside, in order: the file it creates, and for each density
  level the group it creates and the datasets it writes there (\<open>create_hdf5_dsets\<close>,
  \<open>create_encoded_dspace\<close>, \<open>create_structured_dsets\<close>), summarised by the level, the
  element count, the selection of the dataspace and the data buffer.
\<close>

datatype io_event =
    Create_file
  | Create_group nat
  | Write_datasets nat nat "coord set" "8 word list"
  | Close_file

text \<open>How the process ends: \<open>exit\<close> or \<open>return\<close> with a status, or a fatal signal.\<close>

datatype process_end = Exit int | Killed crash

definition UCHAR_MAX :: nat where "UCHAR_MAX = 255"

text \<open>
  The data buffer of \<open>nelemts\<close> bytes: \<open>rand() % UCHAR_MAX + 1\<close> for each element when
  \<open>hand.d\<close> is set, else \<open>(i + 1) % UCHAR_MAX\<close>; \<open>k\<close> is the number of \<open>rand()\<close> calls
  made before. The result carries the number of calls made after.
\<close>

definition generate_data :: "handler_t \<Rightarrow> rng \<Rightarrow> nat \<Rightarrow> nat \<Rightarrow> 8 word list \<times> nat" where
  "generate_data hand rng nelemts k =
     (if hand_d hand \<noteq> 0
      then (map (\<lambda>i. word_of_nat (rng (k + i) mod UCHAR_MAX + 1)) [0..<nelemts], k + nelemts)
      else (map (\<lambda>i. word_of_nat ((i + 1) mod UCHAR_MAX)) [0..<nelemts], k))"

text \<open>
  The loop \<open>for (n = 0; n < hand.max_percent; n++)\<close>: density level \<open>n + 1\<close>. The
  selection is emptied (\<open>H5Sselect_none\<close>) at the end of each pass.
\<close>

function sparse_main_loop ::
  "handler_t \<Rightarrow> rng \<Rightarrow> nat \<Rightarrow> hyper_state \<Rightarrow> io_event list \<Rightarrow> process_end \<times> io_event list" where
  "sparse_main_loop hand rng n s evs =
     (if int n < max_percent hand then
        (case create_hyperslab hand rng (n + 1) s of
           Inl c \<Rightarrow> (Killed c, evs @ [Create_group (n + 1)])
         | Inr s1 \<Rightarrow>
             let (data, k) = generate_data hand rng (hs_nelemts s1) (hs_rand s1);
                 written = Write_datasets (n + 1) (hs_nelemts s1) (hs_sel s1) data;
                 s2 = s1\<lparr>hs_sel := H5Sselect_none, hs_rand := k\<rparr>
             in sparse_main_loop hand rng (n + 1) s2 (evs @ [Create_group (n + 1), written]))
      else (Exit 0, evs @ [Close_file]))"
  by pat_completeness auto
termination
  by (relation "measure (\<lambda>(hand, rng, n, s, evs). nat (max_percent hand) - n)") auto

text \<open>
  \<open>main\<close>: \<open>parse_command_line\<close> runs first and may end the process; then the file is
  created, and the dataspace of one chunk starts with all its elements selected.
\<close>

definition sparse_main :: "cmd_option list \<Rightarrow> rng \<Rightarrow> process_end \<times> io_event list" where
  "sparse_main opts rng =
     (case parse_command_line opts of
        Inl e \<Rightarrow> (Exit (exit_status e), [])
      | Inr hand \<Rightarrow>
          sparse_main_loop hand rng 0
            (hs_init ({0..<chunk_dim1 hand} \<times> {0..<chunk_dim2 hand})) [Create_file])"

text \<open>A request asks for at least one element in each dimension.\<close>

definition nonzero_extent :: "request \<Rightarrow> bool" where
  "nonzero_extent r = (0 < fst (snd (snd r)) \<and> 0 < snd (snd (snd r)))"

text \<open>Handlers for worked examples.\<close>

definition hand_100x100 :: handler_t where
  "hand_100x100 = \<lparr>chunk_dim1 = 100, chunk_dim2 = 100, space_select = 2, max_percent = 20,
                    hand_d = 1, hand_v = 0\<rparr>"

definition hand_3x10 :: handler_t where
  "hand_3x10 = \<lparr>chunk_dim1 = 3, chunk_dim2 = 10, space_select = 1, max_percent = 20,
                 hand_d = 1, hand_v = 0\<rparr>"

definition hand_1x1 :: handler_t where
  "hand_1x1 = \<lparr>chunk_dim1 = 1, chunk_dim2 = 1, space_select = 2, max_percent = 20,
                hand_d = 1, hand_v = 0\<rparr>"

section \<open>The encoded selection\<close>

subsection \<open>The selection codec\<close>

text \<open>
  Modelled from the spec: the encoder and decoder of selections. sparse.c obtains the
  bytes from \<open>H5Sencode\<close> of the HDF5 library and never decodes them, so neither function
  is among the sources. The model follows the words of the specification: a selection is
  an ordered sequence of blocks, each an offset and an extent with one coordinate per
  dimension; the encoding is a versioned layout of the rank, the block count, and then
  the offset and the extent of each block; the decoder is its inverse. Every field is
  written as 8 bytes, least significant first (the width of \<open>hsize_t\<close>).
\<close>

type_synonym byte = "8 word"
type_synonym coordinate = "nat list"
type_synonym selection_block = "coordinate \<times> coordinate"

record selection =
  sel_rank :: nat
  sel_blocks :: "selection_block list"

definition CODEC_VERSION :: nat where "CODEC_VERSION = 1"

fun le_bytes :: "nat \<Rightarrow> nat \<Rightarrow> byte list" where
  "le_bytes 0 n = []"
| "le_bytes (Suc k) n = word_of_nat (n mod 256) # le_bytes k (n div 256)"

fun le_nat :: "byte list \<Rightarrow> nat" where
  "le_nat [] = 0"
| "le_nat (b # bs) = unat b + 256 * le_nat bs"

definition block_fields :: "selection_block \<Rightarrow> nat list" where
  "block_fields b = fst b @ snd b"

definition encode :: "selection \<Rightarrow> byte list" where
  "encode s =
     concat (map (le_bytes 8)
       (CODEC_VERSION # sel_rank s # length (sel_blocks s) # concat (map block_fields (sel_blocks s))))"

text \<open>The decoder: the buffer as 8-byte fields, then the header, then the blocks.\<close>

function fields_of :: "byte list \<Rightarrow> nat list option" where
  "fields_of bs =
     (if bs = [] then Some []
      else if length bs < 8 then None
      else map_option (\<lambda>fs. le_nat (take 8 bs) # fs) (fields_of (drop 8 bs)))"
  by pat_completeness auto
termination
  by (relation "measure length") auto

fun parse_blocks :: "nat \<Rightarrow> nat \<Rightarrow> nat list \<Rightarrow> selection_block list option" where
  "parse_blocks rank 0 fs = (if fs = [] then Some [] else None)"
| "parse_blocks rank (Suc n) fs =
     (if length fs < 2 * rank then None
      else map_option (\<lambda>bl. (take rank fs, take rank (drop rank fs)) # bl)
             (parse_blocks rank n (drop (2 * rank) fs)))"

definition decode :: "byte list \<Rightarrow> selection option" where
  "decode bs =
     (case fields_of bs of
        Some (v # rank # n # fs) \<Rightarrow>
          if v \<noteq> CODEC_VERSION then None
          else map_option (\<lambda>bl. \<lparr>sel_rank = rank, sel_blocks = bl\<rparr>) (parse_blocks rank n fs)
      | _ \<Rightarrow> None)"

text \<open>
  Modelled from the spec: the selections the codec is for. Every block has one offset
  and one extent per dimension, and the rank, the block count and every coordinate fit a
  field (\<open>encodable\<close>); a canonical selection is moreover free of overlaps: no two of its
  blocks share a point.
\<close>

definition encodable :: "selection \<Rightarrow> bool" where
  "encodable s =
     (sel_rank s < 2 ^ 64 \<and> length (sel_blocks s) < 2 ^ 64 \<and>
      list_all (\<lambda>b. length (fst b) = sel_rank s \<and> length (snd b) = sel_rank s \<and>
                     list_all (\<lambda>x. x < 2 ^ 64) (fst b) \<and> list_all (\<lambda>x. x < 2 ^ 64) (snd b))
        (sel_blocks s))"

definition blocks_overlap :: "selection_block \<Rightarrow> selection_block \<Rightarrow> bool" where
  "blocks_overlap b1 b2 =
     list_all (\<lambda>((o1, e1), (o2, e2)). o1 < o2 + e2 \<and> o2 < o1 + e1)
       (zip (zip (fst b1) (snd b1)) (zip (fst b2) (snd b2)))"

fun overlap_free :: "selection_block list \<Rightarrow> bool" where
  "overlap_free [] = True"
| "overlap_free (b # bs) = (list_all (\<lambda>b'. \<not> blocks_overlap b b') bs \<and> overlap_free bs)"

definition canonical :: "selection \<Rightarrow> bool" where
  "canonical s = (encodable s \<and> overlap_free (sel_blocks s))"

text \<open>
  Modelled from the spec: the enumeration order of a selection, the row-major order of
  the points of its blocks, points that compare equal staying in the order of their
  blocks. The coordinates of one block are listed row-major by \<open>box_points\<close>.
\<close>

fun box_points :: "coordinate \<Rightarrow> coordinate \<Rightarrow> coordinate list" where
  "box_points [] [] = [[]]"
| "box_points (x # xs) (e # es) = concat (map (\<lambda>i. map ((#) i) (box_points xs es)) [x..<x + e])"
| "box_points xs es = []"

definition enumeration :: "selection \<Rightarrow> coordinate list" where
  "enumeration s = sort (concat (map (\<lambda>b. box_points (fst b) (snd b)) (sel_blocks s)))"

definition point_set :: "selection \<Rightarrow> coordinate set" where
  "point_set s = set (enumeration s)"

subsection \<open>\<open>create_encoded_dspace\<close> of sparse.c\<close>

text \<open>
  A dataset of bytes with a single chunk: its dimension, the deflate level of its
  creation property list if any, and the buffer written to it. A group maps the names of
  its datasets to them. \<open>storage_t\<close> keeps the six sizes of one density level.
\<close>

record dataset =
  ds_dim :: nat
  ds_deflate :: "nat option"
  ds_data :: "byte list"

type_synonym h5group = "string \<rightharpoonup> dataset"

record storage_t =
  st_sparse :: nat
  st_sparse_comp :: nat
  st_data :: nat
  st_data_comp :: nat
  st_sel :: nat
  st_sel_comp :: nat

definition SELECTION_DSET_NAME :: string where
  "SELECTION_DSET_NAME = ''selection''"

definition SELECTION_DSET_COMPRESSED_NAME :: string where
  "SELECTION_DSET_COMPRESSED_NAME = ''selection_comp''"

text \<open>
  \<open>H5Sencode\<close> of the dataspace: the codec above applied to the selection of the
  dataspace. The dataspace handle is represented by that selection, as a sequence of
  blocks.
\<close>

definition H5Sencode :: "selection \<Rightarrow> byte list" where
  "H5Sencode dataspace = encode dataspace"

text \<open>
  \<open>create_encoded_dspace\<close>: the buffer of \<open>nalloc\<close> bytes is written to the dataset
  \<open>selection\<close> and to its deflated twin, and the two chunk sizes go to \<open>st[index]\<close>. The
  size of a chunk without filter is its byte count; \<open>deflated\<close> gives the size gzip
  leaves of a buffer.
\<close>

definition create_encoded_dspace ::
  "(byte list \<Rightarrow> nat) \<Rightarrow> h5group \<Rightarrow> selection \<Rightarrow> nat \<Rightarrow> storage_t list \<Rightarrow> h5group \<times> storage_t list" where
  "create_encoded_dspace deflated grp dataspace index st =
     (let nalloc = length (H5Sencode dataspace);
          buf = H5Sencode dataspace;
          dset = \<lparr>ds_dim = nalloc, ds_deflate = None, ds_data = buf\<rparr>;
          dset_compressed = \<lparr>ds_dim = nalloc, ds_deflate = Some 9, ds_data = buf\<rparr>;
          group1 = grp(SELECTION_DSET_NAME \<mapsto> dset,
                         SELECTION_DSET_COMPRESSED_NAME \<mapsto> dset_compressed);
          st1 = st[index := (st ! index)\<lparr>st_sel := nalloc, st_sel_comp := deflated buf\<rparr>]
      in (group1, st1))"

text \<open>
  The selection of the dataspace after \<open>create_hyperslab\<close>, as a sequence of blocks: the
  blocks requested, in the order of the requests.
\<close>

definition requested_selection :: "request list \<Rightarrow> selection" where
  "requested_selection reqs =
     \<lparr>sel_rank = 2,
      sel_blocks = map (\<lambda>r. ([fst (fst (snd r)), snd (fst (snd r))],
                              [fst (snd (snd r)), snd (snd (snd r))])) reqs\<rparr>"

definition two_rows :: selection where
  "two_rows = \<lparr>sel_rank = 2, sel_blocks = [([0, 3], [1, 2]), ([1, 0], [1, 2])]\<rparr>"

text \<open>The table \<open>st\<close> of \<open>MAX_PERCENT\<close> entries as the program starts with it.\<close>

definition st_start :: "storage_t list" where
  "st_start =
     replicate MAX_PERCENT \<lparr>st_sparse = 0, st_sparse_comp = 0, st_data = 0, st_data_comp = 0,
                    st_sel = 0, st_sel_comp = 0\<rparr>"

section \<open>vl.c: variable-length elements as an index and a blob\<close>

text \<open>
  The handler of vl.c (\<open>nelemts\<close>, \<open>max_len\<close>, \<open>d\<close>), with the field names prefixed.
  \<open>parse_command_line\<close> lets \<open>main\<close> go on only with \<open>1 \<le> nelemts \<le> INT_MAX\<close>,
  \<open>1 \<le> max_len \<le> INT_MAX\<close> and \<open>d\<close> 0 or 1.
\<close>

record vl_handler_t =
  vl_nelemts :: nat
  vl_max_len :: nat
  vl_d :: int

definition CHAR_MAX :: nat where "CHAR_MAX = 127"

text \<open>An \<open>hvl_t\<close> is its buffer \<open>p\<close>; its field \<open>len\<close> is the length of the buffer.\<close>

type_synonym hvl_t = "8 word list"

text \<open>
  The state of the first loop of \<open>create_dsets\<close>: the elements made so far, the array
  \<open>the_pairs\<close> as the pointer \<open>p\<close> has filled it (offset, length, offset, length, ...), the
  running \<open>offset\<close>, \<open>total_len\<close>, and the number of \<open>rand()\<close> calls made.
\<close>

record vl_state =
  vl_data :: "hvl_t list"
  the_pairs :: "nat list"
  vl_offset :: nat
  total_len :: nat
  vl_rand :: nat

text \<open>
  One element: its length \<open>rand() % hand.max_len + 1\<close>, then each byte
  \<open>rand() % CHAR_MAX\<close>, or \<open>j\<close> converted to \<open>char\<close> when the data are to be compressible.
  The result carries the number of \<open>rand()\<close> calls made after.
\<close>

definition vl_element :: "vl_handler_t \<Rightarrow> rng \<Rightarrow> nat \<Rightarrow> hvl_t \<times> nat" where
  "vl_element hand rng k =
     (let len = rng k mod vl_max_len hand + 1
      in if vl_d hand \<noteq> 0
         then (map (\<lambda>j. word_of_nat (rng (k + 1 + j) mod CHAR_MAX)) [0..<len], k + 1 + len)
         else (map (\<lambda>j. word_of_nat j) [0..<len], k + 1))"

text \<open>The body of the first loop: the element, then its pair, then the totals.\<close>

definition vl_body :: "vl_handler_t \<Rightarrow> rng \<Rightarrow> vl_state \<Rightarrow> vl_state" where
  "vl_body hand rng s =
     (let (e, k) = vl_element hand rng (vl_rand s)
      in s\<lparr>vl_data := vl_data s @ [e],
            the_pairs := the_pairs s @ [vl_offset s, length e],
            vl_offset := vl_offset s + length e,
            total_len := total_len s + length e,
            vl_rand := k\<rparr>)"

function vl_loop :: "vl_handler_t \<Rightarrow> rng \<Rightarrow> nat \<Rightarrow> vl_state \<Rightarrow> vl_state" where
  "vl_loop hand rng i s =
     (if i < vl_nelemts hand then vl_loop hand rng (i + 1) (vl_body hand rng s) else s)"
  by pat_completeness auto
termination
  by (relation "measure (\<lambda>(hand, rng, i, s). vl_nelemts hand - i)") auto

text \<open>
  The second loop: \<open>memcpy\<close> of each element to \<open>ptr\<close>, which then moves past it. The
  buffer \<open>all_strings\<close> is the bytes written so far.
\<close>

fun copy_strings :: "hvl_t list \<Rightarrow> 8 word list \<Rightarrow> 8 word list" where
  "copy_strings [] all_strings = all_strings"
| "copy_strings (e # es) all_strings = copy_strings es (all_strings @ e)"

text \<open>
  What \<open>create_dsets\<close> has built when it starts to create the datasets: the elements, the
  pairs, \<open>total_len\<close> (the size of the \<open>malloc\<close> for \<open>all_strings\<close>) and \<open>all_strings\<close>.
  \<open>rand() % hand.max_len\<close> divides by zero when \<open>max_len\<close> is 0.
\<close>

record vl_buffers =
  b_vl_data :: "hvl_t list"
  b_the_pairs :: "nat list"
  b_total_len :: nat
  b_all_strings :: "8 word list"

definition vl_init :: vl_state where
  "vl_init = \<lparr>vl_data = [], the_pairs = [], vl_offset = 0, total_len = 0, vl_rand = 0\<rparr>"

definition create_dsets :: "vl_handler_t \<Rightarrow> rng \<Rightarrow> crash + vl_buffers" where
  "create_dsets hand rng =
     (if 0 < vl_nelemts hand \<and> vl_max_len hand = 0 then Inl DivisionByZero
      else
        let s = vl_loop hand rng 0 vl_init
        in Inr \<lparr>b_vl_data = vl_data s, b_the_pairs = the_pairs s, b_total_len = total_len s,
                 b_all_strings = copy_strings (vl_data s) []\<rparr>)"

text \<open>The pairs an element list should get, starting at offset \<open>off\<close>.\<close>

fun pairs_from :: "nat \<Rightarrow> hvl_t list \<Rightarrow> nat list" where
  "pairs_from off [] = []"
| "pairs_from off (e # es) = off # length e # pairs_from (off + length e) es"

definition vl_hand_example :: vl_handler_t where
  "vl_hand_example = \<lparr>vl_nelemts = 3, vl_max_len = 4, vl_d = 0\<rparr>"

text \<open>The invariant of the first loop.\<close>

definition vl_inv :: "vl_state \<Rightarrow> bool" where
  "vl_inv s = (the_pairs s = pairs_from 0 (vl_data s) \<and>
               vl_offset s = sum_list (map length (vl_data s)) \<and>
               total_len s = sum_list (map length (vl_data s)))"

section \<open>mm2h5.c: ingesting a stream of triplets\<close>

subsection \<open>The text file\<close>

text \<open>
  The values are \<open>unsigned long long\<close>: 64-bit words, whose arithmetic wraps. A line of
  the file, as one \<open>fgets\<close> delivers it, is either a comment or blank line (skipped before
  \<open>sscanf\<close>) or a line on which \<open>sscanf("%llu %llu %llu")\<close> converts zero, one, two or three
  numbers. Only the last kind is a triplet.
\<close>

type_synonym u64 = "64 word"

datatype line =
    Comment
  | Scan0
  | Scan1 u64
  | Scan2 u64 u64
  | Triplet u64 u64 u64

type_synonym triplet = "u64 \<times> u64 \<times> u64"

subsection \<open>\<open>read_next_group\<close>\<close>

text \<open>
  The first loop: skip to the first triplet. The result is that triplet and the lines
  after it, or \<open>None\<close> at the end of the file.
\<close>

fun first_triplet :: "line list \<Rightarrow> (triplet \<times> line list) option" where
  "first_triplet [] = None"
| "first_triplet (Triplet x y z # ls) = Some ((x, y, z), ls)"
| "first_triplet (l # ls) = first_triplet ls"

text \<open>
  The second loop: append the triplets that share \<open>current_y\<close>, skipping the other lines,
  until a triplet with another \<open>y\<close> is read; \<open>fseek\<close> then steps back over that line, so it
  is the first line of what remains. The arrays \<open>a\<close>, \<open>b\<close>, \<open>c\<close> are filled at the same
  index and grow by doubling; they are one list of triplets here.
\<close>

fun same_y_run :: "u64 \<Rightarrow> line list \<Rightarrow> triplet list \<times> line list" where
  "same_y_run current_y [] = ([], [])"
| "same_y_run current_y (Triplet x2 y2 z2 # ls) =
     (if y2 \<noteq> current_y then ([], Triplet x2 y2 z2 # ls)
      else let (ts, rest) = same_y_run current_y ls in ((x2, y2, z2) # ts, rest))"
| "same_y_run current_y (l # ls) = same_y_run current_y ls"

text \<open>
  \<open>read_next_group\<close>: \<open>None\<close> stands for the return value 0; otherwise the group (its
  length is the count returned), \<open>*y_value\<close>, and the lines that remain to be read.
\<close>

definition read_next_group :: "line list \<Rightarrow> (triplet list \<times> u64 \<times> line list) option" where
  "read_next_group ls =
     (case first_triplet ls of
        None \<Rightarrow> None
      | Some ((x, y, z), ls1) \<Rightarrow>
          let (ts, rest) = same_y_run y ls1 in Some ((x, y, z) # ts, y, rest))"

subsection \<open>The write loop of \<open>main\<close>\<close>

text \<open>
  The state of the loop \<open>while ((n = read_next_group(...)) > 0)\<close>: the array \<open>points\<close>
  (its length is \<open>total_points\<close>), its capacity \<open>cap_points\<close>, \<open>group_count\<close>, and the calls
  of \<open>H5Dwrite\<close> made: the selection of the file dataspace and the buffer \<open>c\<close>.
\<close>

record mm_state =
  points :: "triplet list"
  cap_points :: nat
  group_count :: nat
  writes :: "(coord set \<times> u64 list) list"

definition mm_init :: mm_state where
  "mm_init = \<lparr>points = [], cap_points = 0, group_count = 0, writes = []\<rparr>"

text \<open>\<open>a[i]--; b[i]--;\<close> on each element of the group.\<close>

definition decrement :: "triplet \<Rightarrow> triplet" where
  "decrement t = (fst t - 1, fst (snd t) - 1, snd (snd t))"

text \<open>
  The selection of a group: \<open>H5Sselect_none\<close>, then \<open>H5S_SELECT_OR\<close> of the one-element
  block at \<open>(a[i], b[i])\<close> for each \<open>i\<close>.
\<close>

fun or_points :: "triplet list \<Rightarrow> coord set \<Rightarrow> coord set" where
  "or_points [] dspace = dspace"
| "or_points (t # ts) dspace =
     or_points ts (H5Sselect_hyperslab H5S_SELECT_OR (unat (fst t), unat (fst (snd t))) (1, 1) dspace)"

definition group_selection :: "triplet list \<Rightarrow> coord set" where
  "group_selection g = or_points g H5Sselect_none"

text \<open>
  One pass of the loop on the group just read. The capacity of \<open>points\<close> is raised once
  (to \<open>n * 2\<close> from 0, else doubled) when the group does not fit; if it still does not
  fit, the copy loop stores past the end of the buffer.
\<close>

definition process_group :: "triplet list \<Rightarrow> mm_state \<Rightarrow> crash + mm_state" where
  "process_group g s =
     (let n = length g;
          g1 = map decrement g;
          total_points = length (points s);
          cap = (if total_points + n > cap_points s
                 then (if cap_points s = 0 then n * 2 else cap_points s * 2)
                 else cap_points s)
      in if total_points + n > cap then Inl HeapOverflow
         else Inr (s\<lparr>points := points s @ g1,
                     cap_points := cap,
                     group_count := group_count s + 1,
                     writes := writes s @ [(group_selection g1, map (\<lambda>t. snd (snd t)) g1)]\<rparr>))"

lemma first_triplet_shorter:
  "first_triplet ls = Some (t, ls1) \<Longrightarrow> length ls1 < length ls"
  by (induction ls rule: first_triplet.induct) auto

lemma same_y_run_shorter:
  "same_y_run y ls = (ts, rest) \<Longrightarrow> length rest \<le> length ls"
  by (induction y ls arbitrary: ts rest rule: same_y_run.induct)
     (auto split: if_splits prod.splits)

lemma read_next_group_shorter:
  "read_next_group ls = Some (g, y, rest) \<Longrightarrow> length rest < length ls"
  by (auto simp: read_next_group_def split: option.splits prod.splits
      dest!: first_triplet_shorter same_y_run_shorter)

function ingest :: "line list \<Rightarrow> mm_state \<Rightarrow> crash + mm_state" where
  "ingest ls s =
     (case read_next_group ls of
        None \<Rightarrow> Inr s
      | Some (g, y_value, rest) \<Rightarrow>
          (case process_group g s of
             Inl f \<Rightarrow> Inl f
           | Inr s1 \<Rightarrow> ingest rest s1))"
  by pat_completeness auto
termination
  by (relation "measure (\<lambda>(ls, s). length ls)") (auto dest: read_next_group_shorter)

subsection \<open>Verification\<close>

definition VERIFY_POINTS :: nat where "VERIFY_POINTS = 10"
definition VERIFY_ALL_LIMIT :: nat where "VERIFY_ALL_LIMIT = 10000"

text \<open>
  The verification reads the dataset back. \<open>rd k\<close> is the value that read number \<open>k\<close>
  (\<open>H5Dread\<close>) delivers; a theorem that holds for every \<open>rd\<close> holds whatever the file
  contains. The state of the two loops: \<open>mismatches\<close>, the indices of \<open>points\<close> checked so
  far, the start of the one-element selection \<open>{points[i].a, points[i].b}\<close> of each read,
  and the lines printed for the samples (the two coordinates as printed, the expected
  value, the value read, and whether \<open>OK\<close> was printed).
\<close>

record verify_state =
  mismatches :: nat
  checked_at :: "nat list"
  read_at :: "(u64 \<times> u64) list"
  printed :: "(u64 \<times> u64 \<times> u64 \<times> u64 \<times> bool) list"

definition verify_init :: verify_state where
  "verify_init = \<lparr>mismatches = 0, checked_at = [], read_at = [], printed = []\<rparr>"

text \<open>
  The body of the loop over all points: the selection of \<open>points[i]\<close>, the read and the
  comparison with \<open>points[i].c\<close>.
\<close>

definition verify_point :: "triplet list \<Rightarrow> (nat \<Rightarrow> u64) \<Rightarrow> nat \<Rightarrow> verify_state \<Rightarrow> verify_state" where
  "verify_point pts rd i s =
     (let start = (fst (pts ! i), fst (snd (pts ! i)));
          rd_value = rd i;
          s1 = s\<lparr>checked_at := checked_at s @ [i], read_at := read_at s @ [start]\<rparr>
      in if rd_value \<noteq> snd (snd (pts ! i)) then s1\<lparr>mismatches := mismatches s1 + 1\<rparr> else s1)"

text \<open>The loop \<open>for (size_t i = 0; i < total_points; i++)\<close>.\<close>

function verify_all :: "triplet list \<Rightarrow> (nat \<Rightarrow> u64) \<Rightarrow> nat \<Rightarrow> verify_state \<Rightarrow> verify_state" where
  "verify_all pts rd i s =
     (if i < length pts then verify_all pts rd (i + 1) (verify_point pts rd i s) else s)"
  by pat_completeness auto
termination
  by (relation "measure (\<lambda>(pts, rd, i, s). length pts - i)") auto

text \<open>
  The index of a sample, \<open>idx = rand() % total_points\<close>, for the value \<open>r\<close> that \<open>rand()\<close>
  returns.
\<close>

definition sample_index :: "nat \<Rightarrow> nat \<Rightarrow> nat" where
  "sample_index r total_points = r mod total_points"

text \<open>
  \<open>rand()\<close> returns a value from 0 to \<open>RAND_MAX\<close>, a constant of the C library of at
  least 32767 (2147483647 with glibc). \<open>draws_of rand_max total_points idx\<close> is the number
  of these values for which the sample is \<open>idx\<close>.
\<close>

definition draws_of :: "nat \<Rightarrow> nat \<Rightarrow> nat \<Rightarrow> nat" where
  "draws_of rand_max total_points idx =
     card {r. r \<le> rand_max \<and> sample_index r total_points = idx}"

text \<open>
  The body of the loop over the samples: the index, the selection of \<open>points[idx]\<close>, the
  read, the line printed with \<open>points[idx].a+1\<close> and \<open>points[idx].b+1\<close>, and the
  comparison.
\<close>

definition verify_sample :: "triplet list \<Rightarrow> rng \<Rightarrow> (nat \<Rightarrow> u64) \<Rightarrow> nat \<Rightarrow> verify_state \<Rightarrow> verify_state" where
  "verify_sample pts rng rd i s =
     (let idx = sample_index (rng i) (length pts);
          pt = pts ! idx;
          start = (fst pt, fst (snd pt));
          rd_value = rd i;
          s1 = s\<lparr>checked_at := checked_at s @ [idx],
                 read_at := read_at s @ [start],
                 printed := printed s @
                   [(fst pt + 1, fst (snd pt) + 1, snd (snd pt), rd_value, rd_value = snd (snd pt))]\<rparr>
      in if rd_value \<noteq> snd (snd pt) then s1\<lparr>mismatches := mismatches s1 + 1\<rparr> else s1)"

text \<open>The loop \<open>for (int i = 0; i < VERIFY_POINTS; i++)\<close>.\<close>

function verify_samples ::
  "triplet list \<Rightarrow> rng \<Rightarrow> (nat \<Rightarrow> u64) \<Rightarrow> nat \<Rightarrow> verify_state \<Rightarrow> verify_state" where
  "verify_samples pts rng rd i s =
     (if i < VERIFY_POINTS then verify_samples pts rng rd (i + 1) (verify_sample pts rng rd i s)
      else s)"
  by pat_completeness auto
termination
  by (relation "measure (\<lambda>(pts, rng, rd, i, s). VERIFY_POINTS - i)") auto

text \<open>
  The summary: \<open>check_count\<close>, \<open>mismatches\<close>, and the match rate
  \<open>check_count ? 100.0 * (check_count - mismatches) / check_count : 0.0\<close>, a \<open>double\<close> in
  the source and the exact quotient here; with it, what the loops did: the indices
  checked, the places read and the lines printed.
\<close>

record report =
  check_count :: nat
  mismatch_count :: nat
  pct :: real
  sampled :: "nat list"
  read_starts :: "(u64 \<times> u64) list"
  sample_lines :: "(u64 \<times> u64 \<times> u64 \<times> u64 \<times> bool) list"

definition verification :: "triplet list \<Rightarrow> rng \<Rightarrow> (nat \<Rightarrow> u64) \<Rightarrow> report" where
  "verification pts rng rd =
     (let total_points = length pts;
          cc = (if total_points \<le> VERIFY_ALL_LIMIT then total_points else VERIFY_POINTS);
          s = (if total_points \<le> VERIFY_ALL_LIMIT then verify_all pts rd 0 verify_init
               else verify_samples pts rng rd 0 verify_init)
      in \<lparr>check_count = cc,
          mismatch_count = mismatches s,
          pct = (if cc \<noteq> 0 then 100 * (real cc - real (mismatches s)) / real cc else 0),
          sampled = checked_at s,
          read_starts = read_at s,
          sample_lines = printed s\<rparr>)"

subsection \<open>\<open>main\<close> of mm2h5.c\<close>

text \<open>
  The loop that reads the first valid triplet: \<open>sscanf\<close> stores into \<open>X\<close>, \<open>Y\<close> and \<open>dummy\<close>
  as far as it converts, and the loop ends on three conversions.
\<close>

fun read_header :: "line list \<Rightarrow> u64 \<Rightarrow> u64 \<Rightarrow> u64 \<times> u64 \<times> line list" where
  "read_header [] X Y = (X, Y, [])"
| "read_header (Comment # ls) X Y = read_header ls X Y"
| "read_header (Scan0 # ls) X Y = read_header ls X Y"
| "read_header (Scan1 x # ls) X Y = read_header ls x Y"
| "read_header (Scan2 x y # ls) X Y = read_header ls x y"
| "read_header (Triplet x y z # ls) X Y = (x, y, ls)"

text \<open>
  The arguments: \<open>argc\<close>, the gzip level, the lines of the text file (\<open>None\<close> when \<open>fopen\<close>
  fails), and whether \<open>H5Fcreate\<close> succeeds.
\<close>

record mm_args =
  argc :: nat
  gzip_level :: int
  txt_file :: "line list option"
  h5_created :: bool

text \<open>
  The ways \<open>main\<close> ends before the verification: the five returns of \<open>EXIT_FAILURE\<close>,
  and a fault in the write loop.
\<close>

datatype mm_failure =
    Usage
  | BadGzipLevel
  | OpenFailed
  | InvalidHeader
  | CreateFailed
  | Fault crash

definition EXIT_SUCCESS :: int where "EXIT_SUCCESS = 0"

record mm_outcome =
  exit_code :: int
  stored :: "triplet list"
  written :: "(coord set \<times> u64 list) list"
  summary :: report

definition mm2h5_main :: "mm_args \<Rightarrow> rng \<Rightarrow> (nat \<Rightarrow> u64) \<Rightarrow> mm_failure + mm_outcome" where
  "mm2h5_main args rng rd =
     (if argc args < 5 then Inl Usage
      else if gzip_level args < 0 \<or> gzip_level args > 9 then Inl BadGzipLevel
      else
        (case txt_file args of
           None \<Rightarrow> Inl OpenFailed
         | Some ls \<Rightarrow>
             let (X, Y, rest) = read_header ls 0 0 in
             if X = 0 \<or> Y = 0 then Inl InvalidHeader
             else if \<not> h5_created args then Inl CreateFailed
             else
               (case ingest rest mm_init of
                  Inl f \<Rightarrow> Inl (Fault f)
                | Inr s \<Rightarrow>
                    Inr \<lparr>exit_code = EXIT_SUCCESS, stored = points s, written = writes s,
                         summary = verification (points s) rng rd\<rparr>)))"

text \<open>The triplets of a list of lines, in order.\<close>

fun triplets_of :: "line list \<Rightarrow> triplet list" where
  "triplets_of [] = []"
| "triplets_of (Triplet x y z # ls) = (x, y, z) # triplets_of ls"
| "triplets_of (l # ls) = triplets_of ls"

text \<open>
  A run on a file whose first triplet gives the dimensions and whose other three
  triplets form one group with the key 5, the first of them repeated.
\<close>

definition dedup_args :: mm_args where
  "dedup_args =
     \<lparr>argc = 5, gzip_level = 6,
      txt_file = Some [Triplet 2 6 3, Triplet 0 5 9, Triplet 0 5 9, Triplet 1 5 3],
      h5_created = True\<rparr>"

text \<open>Reads that always deliver 0, and a file of one group of 10001 equal triplets.\<close>

definition rd_zero :: "nat \<Rightarrow> u64" where
  "rd_zero k = 0"

definition big_args :: mm_args where
  "big_args =
     \<lparr>argc = 5, gzip_level = 6,
      txt_file = Some (Triplet 4 4 0 # replicate 10001 (Triplet 3 2 7)),
      h5_created = True\<rparr>"

section \<open>frame-writer-str.c: the selection written to each chunk\<close>

text \<open>
  The body of the loop over the chunks of \<open>main\<close> (one chunk of \<open>this_rows\<close> by
  \<open>this_cols\<close> elements at \<open>offset\<close>). The chunk dimensions are the divisors of
  \<open>xdim / xchunk\<close> and \<open>ydim / ychunk\<close> before the loop, so they are not zero inside it.
\<close>

record fw_state =
  fw_sel :: "coord set"
  fw_reqs :: "request list"
  fw_rand :: nat
  fw_stuck :: bool

text \<open>
  \<open>mfrac\<close>, the fraction of defined elements: \<open>atof(arg + 2) / 100.0\<close>, where \<open>m\<close> is the
  number written after \<open>m=\<close> (from 0 to 100), which \<open>atof\<close> rounds to a \<open>double\<close>. The
  default \<open>0.1\<close> is \<open>fw_mfrac 10\<close>.
\<close>

definition fw_mfrac :: "real \<Rightarrow> real" where
  "fw_mfrac m = dbl (dbl m / 100)"

text \<open>
  \<open>num_points\<close> of the random pattern and the slab of the contiguous pattern, each with
  its clamp \<open>if (x == 0) x = 1\<close>. The product \<open>this_rows * this_cols\<close> is on \<open>hsize_t\<close>; it
  and \<open>this_rows\<close>, \<open>this_cols\<close> are converted to \<open>double\<close> for the product with \<open>mfrac\<close>
  or its square root.
\<close>

definition fw_num_points :: "nat \<Rightarrow> nat \<Rightarrow> real \<Rightarrow> nat" where
  "fw_num_points this_rows this_cols mfrac =
     (let num_points = hsize_of_double (dbl (dbl (real (this_rows * this_cols mod 2 ^ 64)) * mfrac))
      in if num_points = 0 then 1 else num_points)"

definition fw_slab :: "nat \<Rightarrow> nat \<Rightarrow> real \<Rightarrow> nat \<times> nat" where
  "fw_slab this_rows this_cols mfrac =
     (let slab_rows = hsize_of_double (dbl (dbl (real this_rows) * dbl (sqrt mfrac)));
          slab_cols = hsize_of_double (dbl (dbl (real this_cols) * dbl (sqrt mfrac)));
          slab_rows = (if slab_rows = 0 then 1 else slab_rows);
          slab_cols = (if slab_cols = 0 then 1 else slab_cols)
      in (slab_rows, slab_cols))"

text \<open>
  One call of \<open>H5Sselect_hyperslab\<close> of the random pattern, for point number \<open>n\<close>: a
  block \<open>{1, 1}\<close> at a random place of the chunk (the two \<open>rand()\<close> calls are taken in
  the order they are written).
\<close>

definition fw_select_point :: "rng \<Rightarrow> coord \<Rightarrow> nat \<Rightarrow> nat \<Rightarrow> nat \<Rightarrow> fw_state \<Rightarrow> fw_state" where
  "fw_select_point rng offset this_rows this_cols n s =
     (let start = (rng (fw_rand s) mod this_rows, rng (fw_rand s + 1) mod this_cols);
          oper = (if n = 0 then H5S_SELECT_SET else H5S_SELECT_OR);
          place = (fst offset + fst start, snd offset + snd start)
      in s\<lparr>fw_sel := H5Sselect_hyperslab oper place (1, 1) (fw_sel s),
            fw_reqs := fw_reqs s @ [(oper, place, (1, 1))],
            fw_rand := fw_rand s + 2\<rparr>)"

text \<open>
  The loop \<open>while ((n+1) != H5Sget_select_npoints(filespace))\<close>, which selects again until
  the point is a new one. Nothing bounds its passes, so the model runs it on \<open>fuel\<close>: when
  the fuel is spent with the condition still true, the state is marked \<open>fw_stuck\<close> and
  keeps the requests made so far.
\<close>

fun fw_retry :: "nat \<Rightarrow> rng \<Rightarrow> coord \<Rightarrow> nat \<Rightarrow> nat \<Rightarrow> nat \<Rightarrow> fw_state \<Rightarrow> fw_state" where
  "fw_retry fuel rng offset this_rows this_cols n s =
     (if n + 1 \<noteq> H5Sget_select_npoints (fw_sel s) then
        (case fuel of
           0 \<Rightarrow> s\<lparr>fw_stuck := True\<rparr>
         | Suc fuel' \<Rightarrow>
             fw_retry fuel' rng offset this_rows this_cols n
               (fw_select_point rng offset this_rows this_cols n s))
      else s)"

text \<open>
  The loop \<open>for (n = 0; n < num_points; n++)\<close>: a request, the retries, and the value of
  \<open>chunk_buf[n]\<close>, which costs one \<open>rand()\<close> when the data are random. \<open>todo\<close> counts the
  passes left, so that \<open>n = num_points - todo\<close>.
\<close>

fun fw_random_points ::
  "nat \<Rightarrow> rng \<Rightarrow> bool \<Rightarrow> coord \<Rightarrow> nat \<Rightarrow> nat \<Rightarrow> nat \<Rightarrow> nat \<Rightarrow> fw_state \<Rightarrow> fw_state" where
  "fw_random_points fuel rng random_data offset this_rows this_cols num_points 0 s = s"
| "fw_random_points fuel rng random_data offset this_rows this_cols num_points (Suc todo) s =
     (let n = num_points - Suc todo;
          s1 = fw_select_point rng offset this_rows this_cols n s;
          s2 = fw_retry fuel rng offset this_rows this_cols n s1
      in if fw_stuck s2 then s2
         else fw_random_points fuel rng random_data offset this_rows this_cols num_points todo
                (if random_data then s2\<lparr>fw_rand := fw_rand s2 + 1\<rparr> else s2))"

text \<open>
  The contiguous pattern: one slab at \<open>rand() % (this_rows - slab_rows + 1)\<close>,
  \<open>rand() % (this_cols - slab_cols + 1)\<close>. The subtraction is on \<open>hsize_t\<close> and wraps
  modulo \<open>2 ^ 64\<close>; a zero divisor ends the process.
\<close>

definition fw_contiguous :: "rng \<Rightarrow> coord \<Rightarrow> nat \<Rightarrow> nat \<Rightarrow> real \<Rightarrow> fw_state \<Rightarrow> crash + fw_state" where
  "fw_contiguous rng offset this_rows this_cols mfrac s =
     (let slab = fw_slab this_rows this_cols mfrac;
          span_rows = (hsize_sub this_rows (fst slab) + 1) mod 2 ^ 64;
          span_cols = (hsize_sub this_cols (snd slab) + 1) mod 2 ^ 64
      in if span_rows = 0 \<or> span_cols = 0 then Inl DivisionByZero
         else
           let start = (rng (fw_rand s) mod span_rows, rng (fw_rand s + 1) mod span_cols);
               place = (fst offset + fst start, snd offset + snd start)
           in Inr (s\<lparr>fw_sel := H5Sselect_hyperslab H5S_SELECT_SET place slab (fw_sel s),
                       fw_reqs := fw_reqs s @ [(H5S_SELECT_SET, place, slab)],
                       fw_rand := fw_rand s + 2\<rparr>))"

text \<open>
  The selection requests of one chunk, for either pattern, with \<open>mfrac\<close> as \<open>parse_args\<close>
  leaves it for the option \<open>m\<close>.
\<close>

definition fw_chunk ::
  "nat \<Rightarrow> rng \<Rightarrow> bool \<Rightarrow> bool \<Rightarrow> coord \<Rightarrow> nat \<Rightarrow> nat \<Rightarrow> real \<Rightarrow> fw_state \<Rightarrow> crash + fw_state" where
  "fw_chunk fuel rng random_pattern random_data offset this_rows this_cols m s =
     (let mfrac = fw_mfrac m in
      if random_pattern then
        (let num_points = fw_num_points this_rows this_cols mfrac
         in Inr (fw_random_points fuel rng random_data offset this_rows this_cols
                   num_points num_points s))
      else fw_contiguous rng offset this_rows this_cols mfrac s)"

definition fw_init :: fw_state where
  "fw_init = \<lparr>fw_sel = {}, fw_reqs = [], fw_rand = 0, fw_stuck = False\<rparr>"

section \<open>Properties of the arithmetic in \<open>double\<close>\<close>

lemma rne_of_int: "rne (of_int k) = k"
  by (simp add: rne_def)

lemma rne_cases:
  obtains "rne x = \<lfloor>x\<rfloor>" "x - of_int \<lfloor>x\<rfloor> \<le> 1 / 2"
  | "rne x = \<lfloor>x\<rfloor> + 1" "1 / 2 \<le> x - of_int \<lfloor>x\<rfloor>"
  unfolding rne_def Let_def
  by (cases "x - of_int \<lfloor>x\<rfloor> < 1 / 2"; cases "1 / 2 < x - of_int \<lfloor>x\<rfloor>"; cases "even \<lfloor>x\<rfloor>") simp_all

lemma rne_err: "\<bar>of_int (rne x) - x\<bar> \<le> 1 / 2"
proof (cases x rule: rne_cases)
  case 1
  then show ?thesis using of_int_floor_le [of x] by simp
next
  case 2
  have "x < of_int \<lfloor>x\<rfloor> + 1" by linarith
  then show ?thesis using 2 by simp
qed

lemma rne_mono: "x \<le> y \<Longrightarrow> rne x \<le> rne y"
proof -
  assume xy: "x \<le> y"
  have fl: "\<lfloor>x\<rfloor> \<le> \<lfloor>y\<rfloor>" using xy by (rule floor_mono)
  have lo: "\<lfloor>z\<rfloor> \<le> rne z" and hi: "rne z \<le> \<lfloor>z\<rfloor> + 1" for z
    by (simp_all add: rne_def Let_def)
  show ?thesis
  proof (cases "\<lfloor>x\<rfloor> = \<lfloor>y\<rfloor>")
    case True
    show ?thesis
    proof (cases "rne x = \<lfloor>x\<rfloor>")
      case True
      then show ?thesis using lo [of y] fl by simp
    next
      case False
      then have hx: "1 / 2 \<le> x - of_int \<lfloor>x\<rfloor>" and rx: "rne x = \<lfloor>x\<rfloor> + 1"
        by (cases x rule: rne_cases; simp)+
      show ?thesis
      proof (cases "1 / 2 < y - of_int \<lfloor>y\<rfloor>")
        case True
        then have "rne y = \<lfloor>y\<rfloor> + 1" by (simp add: rne_def Let_def)
        then show ?thesis using rx \<open>\<lfloor>x\<rfloor> = \<lfloor>y\<rfloor>\<close> by simp
      next
        case False
        with hx xy \<open>\<lfloor>x\<rfloor> = \<lfloor>y\<rfloor>\<close> have "x = y" by simp
        then show ?thesis by simp
      qed
    qed
  next
    case False
    with fl have "\<lfloor>x\<rfloor> + 1 \<le> \<lfloor>y\<rfloor>" by simp
    with hi [of x] lo [of y] show ?thesis by linarith
  qed
qed

lemma ulp_pos: "0 < ulp x"
  by (simp add: ulp_def)

lemma pow_powr: "(2::real) ^ n * 2 powr (a - real n) = 2 powr a"
proof -
  have "(2::real) ^ n = 2 powr real n" by (simp add: powr_realpow)
  then have "(2::real) ^ n * 2 powr (a - real n) = 2 powr (real n + (a - real n))"
    by (simp only: powr_add)
  then show ?thesis by simp
qed

lemma ulp_scale:
  "x \<noteq> 0 \<Longrightarrow> 2 ^ 52 * ulp x = 2 powr (of_int \<lfloor>log 2 \<bar>x\<bar>\<rfloor>)"
  "x \<noteq> 0 \<Longrightarrow> 2 ^ 53 * ulp x = 2 powr (of_int (\<lfloor>log 2 \<bar>x\<bar>\<rfloor> + 1))"
  using pow_powr [of 52 "of_int \<lfloor>log 2 \<bar>x\<bar>\<rfloor>"] pow_powr [of 53 "of_int \<lfloor>log 2 \<bar>x\<bar>\<rfloor> + 1"]
  by (simp_all add: ulp_def)

lemma binade:
  assumes "0 < x"
  shows "2 ^ 52 * ulp x \<le> x" and "x < 2 ^ 53 * ulp x"
proof -
  define e where "e = \<lfloor>log 2 x\<rfloor>"
  have "\<lfloor>log 2 x\<rfloor> = e" by (simp add: e_def)
  then have b: "2 powr (of_int e) \<le> x \<and> x < 2 powr (of_int (e + 1))"
    using assms by (simp add: floor_log_eq_powr_iff)
  have a: "2 ^ 52 * ulp x = 2 powr (of_int e)" and c: "2 ^ 53 * ulp x = 2 powr (of_int (e + 1))"
    using ulp_scale [of x] assms by (simp_all add: e_def)
  show "2 ^ 52 * ulp x \<le> x" using a b by simp
  show "x < 2 ^ 53 * ulp x" using c b by simp
qed

lemma dbl_err:
  assumes "0 < x"
  shows "\<bar>dbl x - x\<bar> \<le> x / 2 ^ 53"
proof -
  have u: "0 < ulp x" by (rule ulp_pos)
  have "\<bar>dbl x - x\<bar> = \<bar>of_int (rne (x / ulp x)) - x / ulp x\<bar> * ulp x"
  proof -
    have "dbl x - x = (of_int (rne (x / ulp x)) - x / ulp x) * ulp x"
      using assms u by (simp add: dbl_def algebra_simps)
    then show ?thesis using u by (simp add: abs_mult)
  qed
  also have "\<dots> \<le> 1 / 2 * ulp x"
    using u rne_err [of "x / ulp x"] by (intro mult_right_mono) simp_all
  also have "\<dots> \<le> x / 2 ^ 53"
    using binade(1) [OF assms] by simp
  finally show ?thesis .
qed

lemma dbl_range:
  assumes "0 < x"
  shows "2 ^ 52 * ulp x \<le> dbl x" and "dbl x \<le> 2 ^ 53 * ulp x"
proof -
  have u: "0 < ulp x" by (rule ulp_pos)
  have q: "2 ^ 52 \<le> x / ulp x" "x / ulp x \<le> 2 ^ 53"
    using binade [OF assms] u by (simp_all add: pos_le_divide_eq pos_divide_le_eq)
  have "rne (of_int (2 ^ 52)) \<le> rne (x / ulp x)" using q(1) by (intro rne_mono) simp
  then have lo: "2 ^ 52 \<le> rne (x / ulp x)" by (simp only: rne_of_int)
  have "rne (x / ulp x) \<le> rne (of_int (2 ^ 53))" using q(2) by (intro rne_mono) simp
  then have hi: "rne (x / ulp x) \<le> 2 ^ 53" by (simp only: rne_of_int)
  have d: "dbl x = of_int (rne (x / ulp x)) * ulp x" using assms by (simp add: dbl_def)
  from lo have "(of_int (2 ^ 52) :: real) \<le> of_int (rne (x / ulp x))" by (simp only: of_int_le_iff)
  then have "(2 ^ 52 :: real) \<le> of_int (rne (x / ulp x))" by simp
  then show "2 ^ 52 * ulp x \<le> dbl x" unfolding d using u by (intro mult_right_mono) simp_all
  from hi have "(of_int (rne (x / ulp x)) :: real) \<le> of_int (2 ^ 53)" by (simp only: of_int_le_iff)
  then have "of_int (rne (x / ulp x)) \<le> (2 ^ 53 :: real)" by simp
  then show "dbl x \<le> 2 ^ 53 * ulp x" unfolding d using u by (intro mult_right_mono) simp_all
qed

lemma dbl_pos: "0 < x \<Longrightarrow> 0 < dbl x"
proof -
  assume x: "0 < x"
  have "0 < 2 ^ 52 * ulp x" using ulp_pos by simp
  with dbl_range(1) [OF x] show ?thesis by linarith
qed

lemma dbl_mono:
  assumes "0 \<le> x" "x \<le> y"
  shows "dbl x \<le> dbl y"
proof (cases "x = 0")
  case True
  show ?thesis
  proof (cases "y = 0")
    case True
    with \<open>x = 0\<close> show ?thesis by simp
  next
    case False
    with assms True have "0 < y" by simp
    from dbl_pos [OF this] True show ?thesis by (simp add: dbl_def)
  qed
next
  case False
  with assms have x: "0 < x" and y: "0 < y" by simp_all
  have le: "\<lfloor>log 2 x\<rfloor> \<le> \<lfloor>log 2 y\<rfloor>"
    using x y assms(2) by (intro floor_mono) simp
  show ?thesis
  proof (cases "\<lfloor>log 2 x\<rfloor> = \<lfloor>log 2 y\<rfloor>")
    case True
    then have u: "ulp x = ulp y" using x y by (simp add: ulp_def)
    have "x / ulp y \<le> y / ulp y" using assms(2) ulp_pos [of y] by (simp add: divide_right_mono)
    then have "rne (x / ulp y) \<le> rne (y / ulp y)" by (rule rne_mono)
    then have "(of_int (rne (x / ulp y)) :: real) \<le> of_int (rne (y / ulp y))" by simp
    then show ?thesis using x y ulp_pos [of y]
      by (simp add: dbl_def u)
  next
    case False
    with le have lt: "\<lfloor>log 2 x\<rfloor> + 1 \<le> \<lfloor>log 2 y\<rfloor>" by simp
    have "2 ^ 53 * ulp x = 2 powr (of_int (\<lfloor>log 2 x\<rfloor> + 1))"
      using ulp_scale(2) [of x] x by simp
    also have "\<dots> \<le> 2 powr (of_int \<lfloor>log 2 y\<rfloor>)"
      using lt by (intro powr_mono) simp_all
    also have "\<dots> = 2 ^ 52 * ulp y" using ulp_scale(1) [of y] y by simp
    finally have "2 ^ 53 * ulp x \<le> 2 ^ 52 * ulp y" .
    with dbl_range(2) [OF x] dbl_range(1) [OF y] show ?thesis by linarith
  qed
qed

lemma dbl_of_nat:
  assumes "n < 2 ^ 53"
  shows "dbl (real n) = real n"
proof (cases "n = 0")
  case True
  then show ?thesis by (simp add: dbl_def)
next
  case False
  then have x: "0 < real n" by simp
  define e where "e = \<lfloor>log 2 (real n)\<rfloor>"
  have "\<lfloor>log 2 (real n)\<rfloor> = e" by (simp add: e_def)
  then have b: "2 powr (of_int e) \<le> real n" using x by (simp add: floor_log_eq_powr_iff)
  have "1 \<le> real n" using False by simp
  then have "0 \<le> log 2 (real n)" by simp
  then have e0: "0 \<le> e" by (simp add: e_def)
  have "real n < real (2 ^ 53)" using assms by (simp only: of_nat_less_iff)
  also have "real (2 ^ 53) = 2 powr (real 53)" by (simp only: powr_realpow [symmetric] of_nat_power of_nat_numeral)
  finally have "2 powr (of_int e) < (2::real) powr (real 53)" using b by linarith
  from powr_less_cancel [OF this] have "of_int e < (53::real)" by simp
  then have e52: "e \<le> 52" by linarith
  define k where "k = nat (52 - e)"
  have k: "real k = 52 - of_int e" using e52 by (simp add: k_def)
  have "ulp (real n) = 2 powr (- real k)" using x by (simp add: ulp_def e_def k)
  also have "\<dots> = 1 / 2 ^ k" by (simp add: powr_minus powr_realpow inverse_eq_divide)
  finally have u: "ulp (real n) = 1 / 2 ^ k" .
  have "real n / ulp (real n) = of_int (int (n * 2 ^ k))" by (simp add: u)
  then have "rne (real n / ulp (real n)) = int (n * 2 ^ k)" by (simp only: rne_of_int)
  then show ?thesis using x by (simp add: dbl_def u)
qed

section \<open>Properties of sparse.c\<close>

subsection \<open>The loops of topology 1 in closed form\<close>

declare scattered_cols.simps [simp del]
declare scattered_rows.simps [simp del]
declare contiguous_rows.simps [simp del]

lemma scattered_body_simps:
  "hs_rand (scattered_body rng sections i j s) = hs_rand s + 1"
  "hs_nelemts (scattered_body rng sections i j s) = hs_nelemts s + 1"
  "hs_reqs (scattered_body rng sections i j s) =
     hs_reqs s @ [(if i = 0 \<and> j = 0 then H5S_SELECT_SET else H5S_SELECT_OR,
                   (i, j * sections + rng (hs_rand s) mod sections), (1, 1))]"
  "hs_sel (scattered_body rng sections i j s) =
     (if i = 0 \<and> j = 0 then {} else hs_sel s) \<union> {(i, j * sections + rng (hs_rand s) mod sections)}"
  by (auto simp: scattered_body_def select_call_def Let_def H5Sselect_hyperslab_def block_points_def)

lemma image_from: "j < n \<Longrightarrow> f ` {j..<n} = insert (f j) (f ` {Suc j..<n})" for j n :: nat
proof -
  assume "j < n"
  then have "{j..<n} = insert j {Suc j..<n}" by auto
  then show ?thesis by simp
qed

text \<open>
  The loop over \<open>j\<close> returns when the sections are not empty and \<open>num_selections\<close> fits
  an \<open>int\<close>; \<open>k0 + j\<close> is the number of \<open>rand()\<close> calls made before pass \<open>j\<close>.
\<close>

lemma scattered_cols_run:
  "0 < sections \<Longrightarrow> num_selections \<le> INT_MAX \<Longrightarrow> j \<le> num_selections \<Longrightarrow>
   hs_rand s = k0 + j \<Longrightarrow>
   \<exists>s'. scattered_cols rng sections num_selections i j s = Inr s' \<and>
     hs_rand s' = k0 + num_selections \<and>
     hs_nelemts s' = hs_nelemts s + (num_selections - j) \<and>
     hs_sel s' = (if i = 0 \<and> j = 0 \<and> 0 < num_selections then {} else hs_sel s) \<union>
        (\<lambda>j'. (i, j' * sections + rng (k0 + j') mod sections)) ` {j..<num_selections} \<and>
     hs_reqs s' = hs_reqs s @
        map (\<lambda>j'. (if i = 0 \<and> j' = 0 then H5S_SELECT_SET else H5S_SELECT_OR,
                    (i, j' * sections + rng (k0 + j') mod sections), (1, 1))) [j..<num_selections]"
proof (induction rng sections num_selections i j s rule: scattered_cols.induct)
  case (1 rng sections num_selections i j s)
  show ?case
  proof (cases "j < num_selections")
    case True
    let ?b = "scattered_body rng sections i j s"
    have nz: "sections \<noteq> 0" and nm: "j \<noteq> INT_MAX" using "1.prems" True by simp_all
    have r: "hs_rand ?b = k0 + (j + 1)"
      using "1.prems" by (simp add: scattered_body_simps)
    have le: "j + 1 \<le> num_selections" using True by simp
    from "1.IH" [OF True nz nm "1.prems"(1) "1.prems"(2) le r]
    obtain s' where
      run: "scattered_cols rng sections num_selections i (j + 1) ?b = Inr s'"
      and rnd: "hs_rand s' = k0 + num_selections"
      and nel: "hs_nelemts s' = hs_nelemts ?b + (num_selections - (j + 1))"
      and sel: "hs_sel s' = (if i = 0 \<and> j + 1 = 0 \<and> 0 < num_selections then {} else hs_sel ?b) \<union>
        (\<lambda>j'. (i, j' * sections + rng (k0 + j') mod sections)) ` {j + 1..<num_selections}"
      and reqs: "hs_reqs s' = hs_reqs ?b @
        map (\<lambda>j'. (if i = 0 \<and> j' = 0 then H5S_SELECT_SET else H5S_SELECT_OR,
                    (i, j' * sections + rng (k0 + j') mod sections), (1, 1))) [j + 1..<num_selections]"
      by (elim exE conjE) (rule that)
    have step: "scattered_cols rng sections num_selections i j s = Inr s'"
      using True nz nm run by (subst scattered_cols.simps) simp
    have nel': "hs_nelemts s' = hs_nelemts s + (num_selections - j)"
      using nel True by (simp add: scattered_body_simps)
    have sel': "hs_sel s' = (if i = 0 \<and> j = 0 \<and> 0 < num_selections then {} else hs_sel s) \<union>
        (\<lambda>j'. (i, j' * sections + rng (k0 + j') mod sections)) ` {j..<num_selections}"
      using sel True "1.prems"(4) by (simp add: scattered_body_simps image_from [OF True])
    have reqs': "hs_reqs s' = hs_reqs s @
        map (\<lambda>j'. (if i = 0 \<and> j' = 0 then H5S_SELECT_SET else H5S_SELECT_OR,
                    (i, j' * sections + rng (k0 + j') mod sections), (1, 1))) [j..<num_selections]"
      using reqs True "1.prems"(4) by (simp add: scattered_body_simps upt_conv_Cons)
    show ?thesis
      using step rnd nel' sel' reqs' by (intro exI [of _ s'] conjI)
  next
    case False
    with "1.prems" have j: "j = num_selections" by simp
    have "scattered_cols rng sections num_selections i j s = Inr s"
      using False by (subst scattered_cols.simps) simp
    then show ?thesis using j "1.prems"(4) by auto
  qed
qed

text \<open>With more than \<open>INT_MAX\<close> points per row the counter \<open>j\<close> overflows in the first row.\<close>

lemma scattered_cols_overflow:
  "0 < sections \<Longrightarrow> INT_MAX < num_selections \<Longrightarrow> j \<le> INT_MAX \<Longrightarrow>
   scattered_cols rng sections num_selections i j s = Inl SignedOverflow"
proof (induction rng sections num_selections i j s rule: scattered_cols.induct)
  case (1 rng sections num_selections i j s)
  have lt: "j < num_selections" and nz: "sections \<noteq> 0" using "1.prems" by simp_all
  show ?case
  proof (cases "j = INT_MAX")
    case True
    then show ?thesis using lt nz by (subst scattered_cols.simps) simp
  next
    case False
    then have "j + 1 \<le> INT_MAX" using "1.prems"(3) by simp
    from "1.IH" [OF lt nz False "1.prems"(1) "1.prems"(2) this]
    show ?thesis using lt nz False by (subst scattered_cols.simps) simp
  qed
qed

lemma rows_from:
  "i < n \<Longrightarrow> f ` ({i..<n} \<times> A) = f ` ({i} \<times> A) \<union> f ` ({Suc i..<n} \<times> A)" for i n :: nat
proof -
  assume "i < n"
  then have "{i..<n} = insert i {Suc i..<n}" by auto
  then have "{i..<n} \<times> A = ({i} \<times> A) \<union> ({Suc i..<n} \<times> A)" by auto
  then show ?thesis by (simp add: image_Un)
qed

text \<open>
  The loop over \<open>i\<close> returns when moreover the number of rows fits an \<open>int\<close>;
  \<open>k0 + i * num_selections\<close> is the number of \<open>rand()\<close> calls made before row \<open>i\<close>.
\<close>

lemma scattered_rows_run:
  "0 < sections \<Longrightarrow> num_selections \<le> INT_MAX \<Longrightarrow> dim1 \<le> INT_MAX \<Longrightarrow> i \<le> dim1 \<Longrightarrow>
   hs_rand s = k0 + i * num_selections \<Longrightarrow>
   \<exists>s'. scattered_rows rng sections num_selections dim1 i s = Inr s' \<and>
     hs_nelemts s' = hs_nelemts s + (dim1 - i) * num_selections \<and>
     hs_sel s' = (if i = 0 \<and> 0 < dim1 \<and> 0 < num_selections then {} else hs_sel s) \<union>
        scattered_point rng sections num_selections k0 ` ({i..<dim1} \<times> {0..<num_selections}) \<and>
     hs_reqs s' = hs_reqs s @
        concat (map (\<lambda>i'. map (\<lambda>j'. (scattered_oper (i', j'),
                                     scattered_point rng sections num_selections k0 (i', j'), (1, 1)))
                             [0..<num_selections]) [i..<dim1])"
proof (induction rng sections num_selections dim1 i s rule: scattered_rows.induct)
  case (1 rng sections num_selections dim1 i s)
  let ?P = "scattered_point rng sections num_selections k0"
  show ?case
  proof (cases "i < dim1")
    case True
    have r0: "hs_rand s = (k0 + i * num_selections) + 0" using "1.prems" by simp
    from scattered_cols_run [OF "1.prems"(1) "1.prems"(2) le0 r0, of rng i]
    obtain s1 where
      cols: "scattered_cols rng sections num_selections i 0 s = Inr s1"
      and rnd1: "hs_rand s1 = k0 + i * num_selections + num_selections"
      and nel1: "hs_nelemts s1 = hs_nelemts s + (num_selections - 0)"
      and sel1: "hs_sel s1 = (if i = 0 \<and> (0::nat) = 0 \<and> 0 < num_selections then {} else hs_sel s) \<union>
        (\<lambda>j'. (i, j' * sections + rng (k0 + i * num_selections + j') mod sections)) ` {0..<num_selections}"
      and reqs1: "hs_reqs s1 = hs_reqs s @
        map (\<lambda>j'. (if i = 0 \<and> j' = 0 then H5S_SELECT_SET else H5S_SELECT_OR,
                    (i, j' * sections + rng (k0 + i * num_selections + j') mod sections), (1, 1)))
          [0..<num_selections]"
      by (elim exE conjE) (rule that)
    have nm: "i \<noteq> INT_MAX" using True "1.prems"(3) by simp
    have r: "hs_rand s1 = k0 + (i + 1) * num_selections" using rnd1 by simp
    have le: "i + 1 \<le> dim1" using True by simp
    from "1.IH" [OF True cols nm "1.prems"(1) "1.prems"(2) "1.prems"(3) le r]
    obtain s' where
      run: "scattered_rows rng sections num_selections dim1 (i + 1) s1 = Inr s'"
      and nel: "hs_nelemts s' = hs_nelemts s1 + (dim1 - (i + 1)) * num_selections"
      and sel: "hs_sel s' = (if i + 1 = 0 \<and> 0 < dim1 \<and> 0 < num_selections then {} else hs_sel s1) \<union>
        ?P ` ({i + 1..<dim1} \<times> {0..<num_selections})"
      and reqs: "hs_reqs s' = hs_reqs s1 @
        concat (map (\<lambda>i'. map (\<lambda>j'. (scattered_oper (i', j'), ?P (i', j'), (1, 1)))
                             [0..<num_selections]) [i + 1..<dim1])"
      by (elim exE conjE) (rule that)
    have step: "scattered_rows rng sections num_selections dim1 i s = Inr s'"
      using True cols nm run by (subst scattered_rows.simps) simp
    have "(dim1 - i) * num_selections = num_selections + (dim1 - (i + 1)) * num_selections"
      using True by (cases "dim1 - i") (auto simp: Suc_diff_Suc)
    then have nel': "hs_nelemts s' = hs_nelemts s + (dim1 - i) * num_selections"
      using nel nel1 by simp
    have row: "(\<lambda>j'. (i, j' * sections + rng (k0 + i * num_selections + j') mod sections)) ` {0..<num_selections}
               = ?P ` ({i} \<times> {0..<num_selections})"
    proof -
      have "{i} \<times> {0..<num_selections} = Pair i ` {0..<num_selections}" by auto
      then show ?thesis by (simp add: image_image scattered_point_def)
    qed
    have s1: "hs_sel s1 = (if i = 0 \<and> 0 < num_selections then {} else hs_sel s) \<union>
                ?P ` ({i} \<times> {0..<num_selections})"
      using sel1 by (simp add: row)
    have "hs_sel s' = hs_sel s1 \<union> ?P ` ({i + 1..<dim1} \<times> {0..<num_selections})"
      using sel by simp
    also have "\<dots> = (if i = 0 \<and> 0 < dim1 \<and> 0 < num_selections then {} else hs_sel s) \<union>
        ?P ` ({i..<dim1} \<times> {0..<num_selections})"
      using True by (simp add: s1 rows_from [OF True] Un_assoc)
    finally have sel': "hs_sel s' = (if i = 0 \<and> 0 < dim1 \<and> 0 < num_selections then {} else hs_sel s) \<union>
        ?P ` ({i..<dim1} \<times> {0..<num_selections})" .
    have r1: "hs_reqs s1 = hs_reqs s @
        map (\<lambda>j'. (scattered_oper (i, j'), ?P (i, j'), (1, 1))) [0..<num_selections]"
      using reqs1 by (simp add: scattered_point_def scattered_oper_def)
    have reqs': "hs_reqs s' = hs_reqs s @
        concat (map (\<lambda>i'. map (\<lambda>j'. (scattered_oper (i', j'), ?P (i', j'), (1, 1)))
                             [0..<num_selections]) [i..<dim1])"
      using reqs True by (simp add: r1 upt_conv_Cons)
    show ?thesis
      using step nel' sel' reqs' by (intro exI [of _ s'] conjI)
  next
    case False
    with "1.prems" have i: "i = dim1" by simp
    have "scattered_rows rng sections num_selections dim1 i s = Inr s"
      using False by (subst scattered_rows.simps) simp
    then show ?thesis using i by auto
  qed
qed

text \<open>With more than \<open>INT_MAX\<close> rows the counter \<open>i\<close> overflows before the loop ends.\<close>

lemma scattered_rows_overflow:
  "0 < sections \<Longrightarrow> num_selections \<le> INT_MAX \<Longrightarrow> INT_MAX < dim1 \<Longrightarrow> i \<le> INT_MAX \<Longrightarrow>
   scattered_rows rng sections num_selections dim1 i s = Inl SignedOverflow"
proof (induction rng sections num_selections dim1 i s rule: scattered_rows.induct)
  case (1 rng sections num_selections dim1 i s)
  have lt: "i < dim1" using "1.prems" by simp
  have r0: "hs_rand s = hs_rand s + 0" by simp
  from scattered_cols_run [OF "1.prems"(1) "1.prems"(2) le0 r0, of rng i]
  obtain s1 where cols: "scattered_cols rng sections num_selections i 0 s = Inr s1" by blast
  show ?case
  proof (cases "i = INT_MAX")
    case True
    then show ?thesis using lt cols by (subst scattered_rows.simps) simp
  next
    case False
    then have "i + 1 \<le> INT_MAX" using "1.prems"(4) by simp
    from "1.IH" [OF lt cols False "1.prems"(1) "1.prems"(2) "1.prems"(3) this]
    show ?thesis using lt cols False by (subst scattered_rows.simps) simp
  qed
qed

lemma concat_grid:
  "concat (map (\<lambda>i. map (\<lambda>j. f (i, j)) [0..<n]) [0..<m]) =
   map (\<lambda>k. f (k div n, k mod n)) [0..<m * n]"
proof (induction m)
  case 0
  then show ?case by simp
next
  case (Suc m)
  have "[0..<m * n + n] = [0..<m * n] @ [m * n..<m * n + n]"
    by (rule upt_add_eq_append) simp
  moreover have "[m * n..<m * n + n] = map (\<lambda>j. j + m * n) [0..<n]"
    by (simp add: map_add_upt add.commute)
  ultimately have upt: "[0..<Suc m * n] = [0..<m * n] @ map (\<lambda>j. j + m * n) [0..<n]"
    by (simp add: add.commute)
  have last: "map (\<lambda>k. f (k div n, k mod n)) (map (\<lambda>j. j + m * n) [0..<n]) =
              map (\<lambda>j. f (m, j)) [0..<n]"
    by (simp add: comp_def)
  have "concat (map (\<lambda>i. map (\<lambda>j. f (i, j)) [0..<n]) [0..<Suc m]) =
        concat (map (\<lambda>i. map (\<lambda>j. f (i, j)) [0..<n]) [0..<m]) @ map (\<lambda>j. f (m, j)) [0..<n]"
    by simp
  also have "\<dots> = map (\<lambda>k. f (k div n, k mod n)) [0..<m * n] @
                   map (\<lambda>k. f (k div n, k mod n)) (map (\<lambda>j. j + m * n) [0..<n])"
    by (simp only: Suc.IH last)
  also have "\<dots> = map (\<lambda>k. f (k div n, k mod n)) [0..<Suc m * n]"
    by (simp only: upt map_append)
  finally show ?case .
qed

lemma sections_pos: "1 \<le> p \<Longrightarrow> p \<le> 20 \<Longrightarrow> 5 \<le> 100 div p" for p :: nat
proof -
  assume "1 \<le> p" "p \<le> 20"
  then have "5 * p \<le> 100" by simp
  then show ?thesis using \<open>1 \<le> p\<close> by (simp add: less_eq_div_iff_mult_less_eq)
qed

lemma buckets_fit: "0 < p \<Longrightarrow> (c * p div 100) * (100 div p) \<le> c" for p c :: nat
proof -
  assume p: "0 < p"
  have "(c * p div 100) * (100 div p) * p = (c * p div 100) * ((100 div p) * p)" by simp
  also have "\<dots> \<le> (c * p div 100) * 100" by (rule mult_le_mono2) simp
  also have "\<dots> \<le> c * p" by simp
  finally show ?thesis using p by simp
qed

lemma scattered_point_bucket:
  "0 < sections \<Longrightarrow> snd (scattered_point rng sections n k0 ij) div sections = snd ij"
  by (simp add: scattered_point_def)

lemma scattered_point_inj:
  assumes "0 < sections"
  shows "inj_on (\<lambda>k. scattered_point rng sections n k0 (k div n, k mod n)) {0..<m * n}"
proof (rule inj_onI)
  fix x y assume x: "x \<in> {0..<m * n}" and y: "y \<in> {0..<m * n}"
    and eq: "scattered_point rng sections n k0 (x div n, x mod n) =
             scattered_point rng sections n k0 (y div n, y mod n)"
  from eq have d: "x div n = y div n" by (simp add: scattered_point_def)
  from arg_cong [OF eq, of "\<lambda>pt. snd pt div sections"]
  have "x mod n = y mod n" using assms by (simp only: scattered_point_bucket snd_conv)
  with d show "x = y" by (metis div_mult_mod_eq)
qed

lemma product_in_range:
  "c * p div 100 \<le> INT_MAX \<Longrightarrow> \<not> LLONG_MAX < c * p" for c p :: nat
proof -
  assume a: "c * p div 100 \<le> INT_MAX"
  have "c * p = c * p div 100 * 100 + c * p mod 100" by simp
  also have "\<dots> < c * p div 100 * 100 + 100" by simp
  also have "\<dots> = (c * p div 100 + 1) * 100" by simp
  also have "\<dots> \<le> (INT_MAX + 1) * 100" using a by (intro mult_le_mono1) simp
  also have "\<dots> \<le> LLONG_MAX" by (simp add: INT_MAX_def LLONG_MAX_def)
  finally show ?thesis by simp
qed

subsection \<open>Claim C2: the point count of topology 1\<close>

text \<open>
  C2, as the code has it. With the scattered-points topology (\<open>space_select = 1\<close>), at
  least one row and one column, a density between 1 and 20 percent (the values
  \<open>parse_command_line\<close> lets \<open>main\<close> pass), and a number of rows and a number of points
  per row that fit the \<open>int\<close> counters of the two loops, \<open>create_hyperslab\<close> returns
  \<open>rows * (cols * percent div 100)\<close> and requests exactly that many one-element blocks,
  pairwise distinct: pass \<open>(i, j)\<close> of the loops requests a point of row \<open>i\<close> in the
  section of columns \<open>[j * (100 div percent), (j + 1) * (100 div percent))\<close>, inside the
  chunk. The first request sets the selection and the others add to it: when there is at
  least one point per row the selection afterwards is the set of these points and has
  that many elements, and when there is none nothing is requested and the dataspace keeps
  the selection it had.
\<close>

theorem scattered_exact_point_count:
  assumes rows: "1 \<le> chunk_dim1 hand" and rows_int: "chunk_dim1 hand \<le> INT_MAX"
    and cols: "1 \<le> chunk_dim2 hand" and sel_int: "chunk_dim2 hand * p div 100 \<le> INT_MAX"
    and topo: "space_select hand = 1" and p1: "1 \<le> p" and p20: "p \<le> 20"
  shows "\<exists>s' pts.
     create_hyperslab hand rng p s = Inr s' \<and>
     hs_nelemts s' = chunk_dim1 hand * (chunk_dim2 hand * p div 100) \<and>
     hs_reqs s' = hs_reqs s @
        map (\<lambda>k. (if k = 0 then H5S_SELECT_SET else H5S_SELECT_OR, pts ! k, (1, 1))) [0..<length pts] \<and>
     length pts = chunk_dim1 hand * (chunk_dim2 hand * p div 100) \<and>
     distinct pts \<and>
     (\<forall>i<chunk_dim1 hand. \<forall>j<chunk_dim2 hand * p div 100. \<exists>r<100 div p.
        pts ! (i * (chunk_dim2 hand * p div 100) + j) = (i, j * (100 div p) + r)) \<and>
     (\<forall>pt\<in>set pts. fst pt < chunk_dim1 hand \<and> snd pt < chunk_dim2 hand) \<and>
     (0 < chunk_dim2 hand * p div 100 \<longrightarrow>
        hs_sel s' = set pts \<and>
        H5Sget_select_npoints (hs_sel s') = chunk_dim1 hand * (chunk_dim2 hand * p div 100)) \<and>
     (chunk_dim2 hand * p div 100 = 0 \<longrightarrow> hs_sel s' = hs_sel s)"
proof -
  define ns where "ns = chunk_dim2 hand * p div 100"
  define sect where "sect = 100 div p"
  define m where "m = chunk_dim1 hand"
  define s0 where "s0 = s\<lparr>hs_nelemts := 0\<rparr>"
  define f where "f = scattered_point rng sect ns (hs_rand s)"
  define pts where "pts = map (\<lambda>k. f (k div ns, k mod ns)) [0..<m * ns]"
  have sect: "0 < sect" using sections_pos [OF p1 p20] by (simp add: sect_def)
  have nsi: "ns \<le> INT_MAX" using sel_int by (simp add: ns_def)
  have mi: "m \<le> INT_MAX" using rows_int by (simp add: m_def)
  have r0: "hs_rand s0 = hs_rand s + 0 * ns" by (simp add: s0_def)
  from scattered_rows_run [OF sect nsi mi le0 r0, of rng]
  obtain s' where
    loop: "scattered_rows rng sect ns m 0 s0 = Inr s'"
    and nel0: "hs_nelemts s' = hs_nelemts s0 + (m - 0) * ns"
    and sel1: "hs_sel s' = (if (0::nat) = 0 \<and> 0 < m \<and> 0 < ns then {} else hs_sel s0) \<union>
        scattered_point rng sect ns (hs_rand s) ` ({0..<m} \<times> {0..<ns})"
    and reqs1: "hs_reqs s' = hs_reqs s0 @
        concat (map (\<lambda>i'. map (\<lambda>j'. (scattered_oper (i', j'),
           scattered_point rng sect ns (hs_rand s) (i', j'), (1, 1))) [0..<ns]) [0..<m])"
    by (elim exE conjE) (rule that)
  note sel0 = sel1 [folded f_def] and reqs0 = reqs1 [folded f_def]
  have run: "create_hyperslab hand rng p s = Inr s'"
    using p1 topo loop product_in_range [OF sel_int]
    by (simp add: create_hyperslab_def Let_def s0_def sect_def ns_def m_def)
  have nel: "hs_nelemts s' = m * ns" using nel0 by (simp add: s0_def)
  have len: "length pts = m * ns" by (simp add: pts_def)
  have nth: "pts ! k = f (k div ns, k mod ns)" if "k < m * ns" for k
    using that by (simp add: pts_def)
  have "hs_reqs s' = hs_reqs s @
     concat (map (\<lambda>i'. map (\<lambda>j'. (scattered_oper (i', j'), f (i', j'), (1, 1))) [0..<ns]) [0..<m])"
    using reqs0 by (simp add: s0_def)
  also have "concat (map (\<lambda>i'. map (\<lambda>j'. (scattered_oper (i', j'), f (i', j'), (1, 1))) [0..<ns]) [0..<m])
     = map (\<lambda>k. (scattered_oper (k div ns, k mod ns), f (k div ns, k mod ns), (1, 1))) [0..<m * ns]"
    by (rule concat_grid [of "\<lambda>ij. (scattered_oper ij, f ij, (1, 1))"])
  also have "\<dots> = map (\<lambda>k. (if k = 0 then H5S_SELECT_SET else H5S_SELECT_OR, pts ! k, (1, 1))) [0..<length pts]"
  proof (unfold len, rule map_cong [OF refl])
    fix k assume "k \<in> set [0..<m * ns]"
    then have k: "k < m * ns" by simp
    then have "0 < ns" by (cases ns) auto
    then have "(k div ns = 0 \<and> k mod ns = 0) = (k = 0)"
      by (metis div_mult_mod_eq mult_zero_left add_0 div_0 mod_0)
    then show "(scattered_oper (k div ns, k mod ns), f (k div ns, k mod ns), (1, 1)) =
               (if k = 0 then H5S_SELECT_SET else H5S_SELECT_OR, pts ! k, (1, 1))"
      using nth [OF k] by (simp add: scattered_oper_def)
  qed
  finally have reqs: "hs_reqs s' = hs_reqs s @
     map (\<lambda>k. (if k = 0 then H5S_SELECT_SET else H5S_SELECT_OR, pts ! k, (1, 1))) [0..<length pts]" .
  have dist: "distinct pts"
    unfolding pts_def f_def
    by (simp add: distinct_map scattered_point_inj [OF sect, simplified])
  have idx: "\<exists>r < sect. pts ! (i * ns + j) = (i, j * sect + r)" if "i < m" "j < ns" for i j
  proof -
    have "i * ns + j < m * ns"
    proof -
      have "i * ns + j < i * ns + ns" using that by simp
      also have "\<dots> = Suc i * ns" by simp
      also have "\<dots> \<le> m * ns" using that by (intro mult_le_mono1) simp
      finally show ?thesis .
    qed
    then have "pts ! (i * ns + j) = f ((i * ns + j) div ns, (i * ns + j) mod ns)" by (rule nth)
    also have "\<dots> = f (i, j)" using that by simp
    also have "\<dots> = (i, j * sect + rng (hs_rand s + i * ns + j) mod sect)"
      by (simp add: f_def scattered_point_def)
    finally show ?thesis using sect by (intro exI [of _ "rng (hs_rand s + i * ns + j) mod sect"]) simp
  qed
  have setpts: "set pts = f ` ({0..<m} \<times> {0..<ns})"
  proof -
    have "pts = concat (map (\<lambda>i. map (\<lambda>j. f (i, j)) [0..<ns]) [0..<m])"
      by (simp add: pts_def concat_grid)
    then show ?thesis by (auto simp: image_iff)
  qed
  have inb: "fst pt < m \<and> snd pt < chunk_dim2 hand" if "pt \<in> set pts" for pt
  proof -
    from that obtain i j where ij: "i < m" "j < ns" and pt: "pt = f (i, j)"
      by (auto simp: setpts)
    have "snd pt < j * sect + sect" using sect by (simp add: pt f_def scattered_point_def)
    also have "\<dots> = Suc j * sect" by simp
    also have "\<dots> \<le> ns * sect" using ij by (intro mult_le_mono1) simp
    also have "\<dots> \<le> chunk_dim2 hand"
      using buckets_fit [of p "chunk_dim2 hand"] p1 by (simp add: ns_def sect_def)
    finally show ?thesis using ij by (simp add: pt f_def scattered_point_def)
  qed
  have sel: "hs_sel s' = set pts \<and> H5Sget_select_npoints (hs_sel s') = m * ns" if "0 < ns"
  proof -
    have "hs_sel s' = set pts"
      using sel0 that rows by (simp add: setpts m_def)
    moreover have "card (set pts) = m * ns"
      using dist len by (simp add: distinct_card)
    ultimately show ?thesis by (simp add: H5Sget_select_npoints_def)
  qed
  have keep: "hs_sel s' = hs_sel s" if "ns = 0"
    using sel0 that by (simp add: s0_def)
  show ?thesis
    apply (rule exI [of _ s'], rule exI [of _ pts])
    using run nel reqs len dist idx inb sel keep
    unfolding ns_def [symmetric] sect_def [symmetric] m_def [symmetric]
    by blast
qed

theorem scattered_exact_point_count_witness:
  "\<exists>s' pts.
     create_hyperslab default_hand rng_id 20 (hs_init {}) = Inr s' \<and>
     hs_nelemts s' = 200 \<and> length pts = 200 \<and> distinct pts \<and>
     hs_sel s' = set pts \<and> H5Sget_select_npoints (hs_sel s') = 200"
proof -
  have h: "1 \<le> chunk_dim1 default_hand" "chunk_dim1 default_hand \<le> INT_MAX"
    "1 \<le> chunk_dim2 default_hand" "chunk_dim2 default_hand * 20 div 100 \<le> INT_MAX"
    "space_select default_hand = 1" "1 \<le> (20::nat)" "(20::nat) \<le> 20"
    by (simp_all add: default_hand_def CHUNK_DIM1_def CHUNK_DIM2_def INT_MAX_def)
  have v: "chunk_dim1 default_hand * (chunk_dim2 default_hand * 20 div 100) = 200"
    by (simp add: default_hand_def CHUNK_DIM1_def CHUNK_DIM2_def)
  have e: "0 < chunk_dim2 default_hand * 20 div 100"
    by (simp add: default_hand_def CHUNK_DIM2_def)
  from scattered_exact_point_count [OF h, of rng_id "hs_init {}", unfolded v]
  obtain s' pts where a:
    "create_hyperslab default_hand rng_id 20 (hs_init {}) = Inr s'"
    "hs_nelemts s' = 200"
    "length pts = 200"
    "distinct pts"
    and b: "0 < chunk_dim2 default_hand * 20 div 100 \<longrightarrow>
       hs_sel s' = set pts \<and> H5Sget_select_npoints (hs_sel s') = 200"
    by (elim exE conjE) (rule that)
  from b e have c: "hs_sel s' = set pts" "H5Sget_select_npoints (hs_sel s') = 200"
    by blast+
  show ?thesis
    using a c by (intro exI [of _ s'] exI [of _ pts] conjI)
qed

text \<open>
  The claim as written is for every chunk of at least one row and one column. The option
  \<open>-c 2097152x1\<close> is accepted and gives \<open>2 ^ 31\<close> rows of 1024 columns: the \<open>int\<close> counter of
  the loop over the rows overflows before the loop ends, and nothing is returned. The
  option \<open>-c 1x209715200\<close> gives rows of \<open>2 ^ 31\<close> points at 1 percent, and the counter of
  the loop over the columns overflows in the first row. And in \<open>create_hyperslab\<close> itself,
  for a chunk of 3 rows and 10 columns at 5 percent, on a dataspace that has all its 30
  elements selected (as \<open>H5Screate_simple\<close> leaves it), nothing is requested: the function
  returns 0 while 30 points are selected.
\<close>

theorem scattered_exact_point_count_counterexample:
  "sparse_main [Opt_c 2097152 1] rng_zero = (Killed SignedOverflow, [Create_file, Create_group 1]) \<and>
   sparse_main [Opt_c 1 209715200] rng_zero = (Killed SignedOverflow, [Create_file, Create_group 1]) \<and>
   (case create_hyperslab hand_3x10 rng_zero 5 (hs_init ({0..<3} \<times> {0..<10})) of
      Inl c \<Rightarrow> None
    | Inr s' \<Rightarrow> Some (hs_nelemts s', H5Sget_select_npoints (hs_sel s'))) = Some (0, 30)"
proof -
  have s: "(0::nat) < 100" and n: "(10::nat) \<le> INT_MAX" and d: "INT_MAX < 2147483648"
    and i: "(0::nat) \<le> INT_MAX"
    by (simp_all add: INT_MAX_def)
  have "create_hyperslab (default_hand\<lparr>chunk_dim1 := 2147483648, chunk_dim2 := 1024\<rparr>) rng_zero 1
          (hs_init ({0..<2147483648} \<times> {0..<1024})) = Inl SignedOverflow"
    using scattered_rows_overflow [OF s n d i]
    by (simp add: create_hyperslab_def default_hand_def LLONG_MAX_def Let_def)
  then have a: "sparse_main [Opt_c 2097152 1] rng_zero =
      (Killed SignedOverflow, [Create_file, Create_group 1])"
    by (simp add: sparse_main_def parse_command_line_def validate_hand_def default_hand_def
        GROUP_NUM_def sparse_main_loop.simps)
  have "create_hyperslab (default_hand\<lparr>chunk_dim1 := 1024, chunk_dim2 := 214748364800\<rparr>) rng_zero 1
          (hs_init ({0..<1024} \<times> {0..<214748364800})) = Inl SignedOverflow"
    using scattered_cols_overflow [OF s d i]
    by (simp add: create_hyperslab_def default_hand_def LLONG_MAX_def Let_def scattered_rows.simps)
  then have b: "sparse_main [Opt_c 1 209715200] rng_zero =
      (Killed SignedOverflow, [Create_file, Create_group 1])"
    by (simp add: sparse_main_def parse_command_line_def validate_hand_def default_hand_def
        GROUP_NUM_def sparse_main_loop.simps)
  have "card ({0..<3::nat} \<times> {0..<10::nat}) = 30" by (simp add: card_cartesian_product)
  then have c: "(case create_hyperslab hand_3x10 rng_zero 5 (hs_init ({0..<3} \<times> {0..<10})) of
      Inl c \<Rightarrow> None
    | Inr s' \<Rightarrow> Some (hs_nelemts s', H5Sget_select_npoints (hs_sel s'))) = Some (0, 30)"
    by (simp add: create_hyperslab_def hand_3x10_def LLONG_MAX_def INT_MAX_def Let_def hs_init_def
        scattered_rows.simps scattered_cols.simps H5Sget_select_npoints_def)
  from a b c show ?thesis by (intro conjI)
qed

subsection \<open>Claim C6: validation of the maximal density\<close>

declare sparse_main_loop.simps [simp del]

lemma sparse_main_loop_events:
  "\<exists>evs'. snd (sparse_main_loop hand rng n s evs) = evs @ evs'"
proof (induction hand rng n s evs rule: sparse_main_loop.induct)
  case (1 hand rng n s evs)
  show ?case
  proof (cases "int n < max_percent hand")
    case True
    show ?thesis
    proof (cases "create_hyperslab hand rng (n + 1) s")
      case (Inl c)
      then show ?thesis using True by (subst sparse_main_loop.simps) simp
    next
      case (Inr s1)
      obtain data k where g: "generate_data hand rng (hs_nelemts s1) (hs_rand s1) = (data, k)"
        by (cases "generate_data hand rng (hs_nelemts s1) (hs_rand s1)")
      from "1.IH" [OF True Inr g [symmetric] refl refl refl]
      obtain evs' where
        "snd (sparse_main_loop hand rng (n + 1) (s1\<lparr>hs_sel := H5Sselect_none, hs_rand := k\<rparr>)
               (evs @ [Create_group (n + 1), Write_datasets (n + 1) (hs_nelemts s1) (hs_sel s1) data])) =
         (evs @ [Create_group (n + 1), Write_datasets (n + 1) (hs_nelemts s1) (hs_sel s1) data]) @ evs'"
        by blast
      then show ?thesis using True Inr g
        by (subst sparse_main_loop.simps) simp
    qed
  next
    case False
    then show ?thesis by (subst sparse_main_loop.simps) simp
  qed
qed

text \<open>
  C6, as the code has it. The bound of the check is 20, which is \<open>MAX_PERCENT\<close>, the length
  of the table \<open>st\<close>, not 100. When the options are scanned to the end (no \<open>-h\<close>) and leave the
  handler \<open>hand\<close>: \<open>parse_command_line\<close> ends the process with the invalid-density message
  exactly when \<open>max_percent hand\<close> is outside \<open>[1, 20]\<close>, and then \<open>main\<close> exits with status
  1 having done no file operation; when the density is in \<open>[1, 20]\<close> and the other three
  fields are valid, the handler is accepted and \<open>main\<close> starts by creating the file.
\<close>

theorem density_validation:
  assumes "parse_options opts default_hand = Inr hand"
  shows "(parse_command_line opts = Inl InvalidDensity \<longleftrightarrow>
            \<not> (1 \<le> max_percent hand \<and> max_percent hand \<le> 20)) \<and>
         (\<not> (1 \<le> max_percent hand \<and> max_percent hand \<le> 20) \<longrightarrow>
            sparse_main opts rng = (Exit 1, [])) \<and>
         (1 \<le> max_percent hand \<and> max_percent hand \<le> 20 \<and>
          1 \<le> space_select hand \<and> space_select hand \<le> 3 \<and>
          0 \<le> hand_d hand \<and> hand_d hand \<le> 1 \<and> 0 \<le> hand_v hand \<and> hand_v hand \<le> 1 \<longrightarrow>
            parse_command_line opts = Inr hand \<and>
            (\<exists>evs. snd (sparse_main opts rng) = Create_file # evs))"
proof (intro conjI impI)
  show "parse_command_line opts = Inl InvalidDensity \<longleftrightarrow>
          \<not> (1 \<le> max_percent hand \<and> max_percent hand \<le> 20)"
    using assms by (auto simp: parse_command_line_def validate_hand_def split: if_splits)
next
  assume "\<not> (1 \<le> max_percent hand \<and> max_percent hand \<le> 20)"
  then have "parse_command_line opts = Inl InvalidDensity"
    using assms by (auto simp: parse_command_line_def validate_hand_def)
  then show "sparse_main opts rng = (Exit 1, [])"
    by (simp add: sparse_main_def)
next
  assume ok: "1 \<le> max_percent hand \<and> max_percent hand \<le> 20 \<and>
          1 \<le> space_select hand \<and> space_select hand \<le> 3 \<and>
          0 \<le> hand_d hand \<and> hand_d hand \<le> 1 \<and> 0 \<le> hand_v hand \<and> hand_v hand \<le> 1"
  then show p: "parse_command_line opts = Inr hand"
    using assms by (auto simp: parse_command_line_def validate_hand_def)
  from sparse_main_loop_events
  obtain evs where "snd (sparse_main_loop hand rng 0
      (hs_init ({0..<chunk_dim1 hand} \<times> {0..<chunk_dim2 hand})) [Create_file]) = [Create_file] @ evs"
    by blast
  then show "\<exists>evs. snd (sparse_main opts rng) = Create_file # evs"
    using p by (simp add: sparse_main_def)
qed

theorem density_validation_witness:
  "parse_options [Opt_m 20] default_hand = Inr (default_hand\<lparr>max_percent := 20\<rparr>) \<and>
   parse_command_line [Opt_m 20] = Inr (default_hand\<lparr>max_percent := 20\<rparr>) \<and>
   parse_options [Opt_m 21] default_hand = Inr (default_hand\<lparr>max_percent := 21\<rparr>) \<and>
   parse_command_line [Opt_m 21] = Inl InvalidDensity \<and>
   sparse_main [Opt_m 21] rng_zero = (Exit 1, [])"
proof -
  have a: "parse_options [Opt_m 20] default_hand = Inr (default_hand\<lparr>max_percent := 20\<rparr>)"
    and b: "parse_options [Opt_m 21] default_hand = Inr (default_hand\<lparr>max_percent := 21\<rparr>)"
    by simp_all
  have "parse_command_line [Opt_m 20] = Inr (default_hand\<lparr>max_percent := 20\<rparr>)"
    using density_validation [OF a, of rng_zero] by (simp add: default_hand_def)
  moreover have "parse_command_line [Opt_m 21] = Inl InvalidDensity \<and>
      sparse_main [Opt_m 21] rng_zero = (Exit 1, [])"
    using density_validation [OF b, of rng_zero] by simp
  ultimately show ?thesis using a b by simp
qed

text \<open>
  The claim as written gives the accepted range as \<open>[1, 100]\<close>: a maximal density of 50
  percent lies in it and is refused.
\<close>

theorem density_validation_counterexample:
  "(1::int) \<le> 50 \<and> (50::int) \<le> 100 \<and>
   parse_command_line [Opt_m 50] = Inl InvalidDensity \<and>
   sparse_main [Opt_m 50] rng_zero = (Exit 1, [])"
  by (simp add: parse_command_line_def validate_hand_def sparse_main_def)

subsection \<open>The rectangle of topology 2\<close>

lemma dbl_zero: "dbl 0 = 0"
  by (simp add: dbl_def)

lemma dbl_nonneg: "0 \<le> x \<Longrightarrow> 0 \<le> dbl x"
  using dbl_pos [of x] by (cases "x = 0") (simp_all add: dbl_zero)

lemma dbl_upper: "0 \<le> x \<Longrightarrow> dbl x \<le> x * (1 + 1 / 2 ^ 53)"
proof (cases "x = 0")
  case True
  then show ?thesis by (simp add: dbl_zero)
next
  case False
  assume "0 \<le> x"
  with False have "0 < x" by simp
  from dbl_err [OF this] have "dbl x - x \<le> x / 2 ^ 53" by linarith
  moreover have "x * (1 + 1 / 2 ^ 53) = x + x / 2 ^ 53" by (simp add: distrib_left)
  ultimately show ?thesis by linarith
qed

lemma dbl_lower: "0 \<le> x \<Longrightarrow> x * (1 - 1 / 2 ^ 53) \<le> dbl x"
proof (cases "x = 0")
  case True
  then show ?thesis by (simp add: dbl_zero)
next
  case False
  assume "0 \<le> x"
  with False have "0 < x" by simp
  from dbl_err [OF this] have "x - dbl x \<le> x / 2 ^ 53" by linarith
  moreover have "x * (1 - 1 / 2 ^ 53) = x - x / 2 ^ 53" by (simp add: right_diff_distrib)
  ultimately show ?thesis by linarith
qed

text \<open>The four roundings of \<open>rect_extent\<close> move the exact value by a factor within \<open>1 \<plusminus> 2 ^ - 50\<close>.\<close>

lemma rect_value_upper:
  assumes "0 \<le> d" "0 \<le> r"
  shows "dbl (dbl (dbl d * dbl r) / 10) \<le> d * r / 10 * (1 + 1 / 2 ^ 50)"
proof -
  let ?u = "1 + 1 / 2 ^ 53 :: real"
  have u: "0 \<le> ?u" by simp
  have a: "dbl d \<le> d * ?u" and a0: "0 \<le> dbl d"
    by (rule dbl_upper [OF assms(1)], rule dbl_nonneg [OF assms(1)])
  have b: "dbl r \<le> r * ?u" and b0: "0 \<le> dbl r"
    by (rule dbl_upper [OF assms(2)], rule dbl_nonneg [OF assms(2)])
  have "dbl d * dbl r \<le> (d * ?u) * (r * ?u)" using a b a0 b0 assms by (intro mult_mono) simp_all
  moreover have "dbl (dbl d * dbl r) \<le> dbl d * dbl r * ?u" using a0 b0 by (intro dbl_upper) simp
  ultimately have c: "dbl (dbl d * dbl r) \<le> (d * ?u) * (r * ?u) * ?u"
    by (meson mult_right_mono order_trans u)
  have c0: "0 \<le> dbl (dbl d * dbl r)" using a0 b0 by (intro dbl_nonneg) simp
  have "dbl (dbl (dbl d * dbl r) / 10) \<le> dbl (dbl d * dbl r) / 10 * ?u"
    using c0 by (intro dbl_upper) simp
  also have "\<dots> \<le> (d * ?u) * (r * ?u) * ?u / 10 * ?u"
    using c by (intro mult_right_mono divide_right_mono) simp_all
  also have "\<dots> = d * r / 10 * (?u * ?u * ?u * ?u)" by simp
  also have "\<dots> \<le> d * r / 10 * (1 + 1 / 2 ^ 50)"
    using assms by (intro mult_left_mono) simp_all
  finally show ?thesis .
qed

lemma rect_value_lower:
  assumes "0 \<le> d" "0 \<le> r"
  shows "d * r / 10 * (1 - 1 / 2 ^ 50) \<le> dbl (dbl (dbl d * dbl r) / 10)"
proof -
  let ?u = "1 - 1 / 2 ^ 53 :: real"
  have u: "0 \<le> ?u" by simp
  have a: "d * ?u \<le> dbl d" and a0: "0 \<le> dbl d"
    by (rule dbl_lower [OF assms(1)], rule dbl_nonneg [OF assms(1)])
  have b: "r * ?u \<le> dbl r" and b0: "0 \<le> dbl r"
    by (rule dbl_lower [OF assms(2)], rule dbl_nonneg [OF assms(2)])
  have "(d * ?u) * (r * ?u) \<le> dbl d * dbl r" using a b a0 b0 assms by (intro mult_mono) simp_all
  moreover have "dbl d * dbl r * ?u \<le> dbl (dbl d * dbl r)" using a0 b0 by (intro dbl_lower) simp
  ultimately have c: "(d * ?u) * (r * ?u) * ?u \<le> dbl (dbl d * dbl r)"
    by (meson mult_right_mono order_trans u)
  have c0: "0 \<le> dbl (dbl d * dbl r)" using a0 b0 by (intro dbl_nonneg) simp
  have "d * r / 10 * (1 - 1 / 2 ^ 50) \<le> d * r / 10 * (?u * ?u * ?u * ?u)"
    using assms by (intro mult_left_mono) simp_all
  also have "\<dots> = (d * ?u) * (r * ?u) * ?u / 10 * ?u" by simp
  also have "\<dots> \<le> dbl (dbl d * dbl r) / 10 * ?u"
    using c by (intro mult_right_mono divide_right_mono) simp_all
  also have "\<dots> \<le> dbl (dbl (dbl d * dbl r) / 10)"
    using c0 by (intro dbl_lower) simp
  finally show ?thesis .
qed

lemma sqrt_percent_bound: "1 \<le> p \<Longrightarrow> p \<le> 20 \<Longrightarrow> 1 \<le> sqrt (real p) \<and> sqrt (real p) \<le> 9 / 2" for p :: nat
proof -
  assume p: "1 \<le> p" "p \<le> 20"
  have "real p \<le> (9 / 2)\<^sup>2" using p by (simp add: power2_eq_square)
  then have "sqrt (real p) \<le> 9 / 2" by (intro real_le_lsqrt) simp_all
  moreover have "1 \<le> sqrt (real p)" using p by simp
  ultimately show ?thesis by simp
qed

lemma rect_extent_half:
  assumes "1 \<le> p" "p \<le> 20"
  shows "2 * rect_extent d p \<le> d"
proof (cases "d = 0")
  case True
  then show ?thesis by (simp add: rect_extent_def hsize_of_double_def dbl_zero)
next
  case False
  let ?c = "dbl (dbl (dbl (real d) * dbl (sqrt (real p))) / 10)"
  have s: "sqrt (real p) \<le> 9 / 2" "0 \<le> sqrt (real p)" using sqrt_percent_bound [OF assms] by simp_all
  have "?c \<le> real d * sqrt (real p) / 10 * (1 + 1 / 2 ^ 50)"
    using s by (intro rect_value_upper) simp_all
  also have "\<dots> \<le> real d * (9 / 2) / 10 * (1 + 1 / 2 ^ 50)"
    using s by (intro mult_right_mono divide_right_mono mult_left_mono) simp_all
  also have "\<dots> = real d * (9 / 20 * (1 + 1 / 2 ^ 50))" by simp
  also have "\<dots> < real d * (1 / 2)" using False by (intro mult_strict_left_mono) simp_all
  finally have "?c < real d / 2" by simp
  moreover have "real_of_int \<lfloor>?c\<rfloor> \<le> ?c" by simp
  ultimately have "real_of_int \<lfloor>?c\<rfloor> < real d / 2" by linarith
  then have "2 * \<lfloor>?c\<rfloor> < int d" by linarith
  then show ?thesis by (simp add: rect_extent_def hsize_of_double_def)
qed

lemma rect_extent_pos:
  assumes "10 \<le> d" "1 \<le> p"
  shows "1 \<le> rect_extent d p"
proof -
  have one: "dbl 1 = 1" and ten: "dbl 10 = 10"
    using dbl_of_nat [of 1] dbl_of_nat [of 10] by simp_all
  have "dbl 10 \<le> dbl (real d)" using assms by (intro dbl_mono) simp_all
  then have a: "10 \<le> dbl (real d)" by (simp add: ten)
  have "dbl 1 \<le> dbl (sqrt (real p))" using assms by (intro dbl_mono) simp_all
  then have b: "1 \<le> dbl (sqrt (real p))" by (simp add: one)
  have "10 * 1 \<le> dbl (real d) * dbl (sqrt (real p))" using a b by (intro mult_mono) simp_all
  then have "dbl 10 \<le> dbl (dbl (real d) * dbl (sqrt (real p)))" by (intro dbl_mono) simp_all
  then have "1 \<le> dbl (dbl (real d) * dbl (sqrt (real p))) / 10" by (simp add: ten)
  then have "dbl 1 \<le> dbl (dbl (dbl (real d) * dbl (sqrt (real p))) / 10)" by (intro dbl_mono) simp_all
  then have "(1::int) \<le> \<lfloor>dbl (dbl (dbl (real d) * dbl (sqrt (real p))) / 10)\<rfloor>"
    by (simp only: one le_floor_iff of_int_1)
  then show ?thesis unfolding rect_extent_def hsize_of_double_def by linarith
qed

lemma rect_extent_near:
  assumes d: "d < 2 ^ 32" and p: "1 \<le> p" "p \<le> 20"
  shows "\<bar>int (rect_extent d p) - \<lfloor>real d * sqrt (real p) / 10\<rfloor>\<bar> \<le> 1"
proof -
  let ?c = "dbl (dbl (dbl (real d) * dbl (sqrt (real p))) / 10)"
  let ?v = "real d * sqrt (real p) / 10"
  have s: "sqrt (real p) \<le> 9 / 2" "0 \<le> sqrt (real p)" using sqrt_percent_bound [OF p] by simp_all
  have v0: "0 \<le> ?v" using s by simp
  have "real d < real (2 ^ 32)" using d by (simp only: of_nat_less_iff)
  then have dr: "real d \<le> 2 ^ 32" by simp
  have "?v \<le> 2 ^ 32 * (9 / 2) / 10" using s dr by (intro divide_right_mono mult_mono) simp_all
  then have vb: "?v \<le> 2 ^ 31" by simp
  have "?v * (1 / 2 ^ 50) \<le> 2 ^ 31 * (1 / 2 ^ 50)" using vb by (intro mult_right_mono) simp_all
  then have e: "?v * (1 / 2 ^ 50) < 1" by simp
  have up: "?c \<le> ?v * (1 + 1 / 2 ^ 50)" using s by (intro rect_value_upper) simp_all
  have lo: "?v * (1 - 1 / 2 ^ 50) \<le> ?c" using s by (intro rect_value_lower) simp_all
  have "?c < ?v + 1" using up e by (simp add: algebra_simps)
  then have f1: "\<lfloor>?c\<rfloor> \<le> \<lfloor>?v\<rfloor> + 1" by (metis floor_add_int floor_mono less_eq_real_def of_int_1)
  have "?v - 1 < ?c" using lo e by (simp add: algebra_simps)
  then have "?v \<le> ?c + 1" by simp
  then have f2: "\<lfloor>?v\<rfloor> \<le> \<lfloor>?c\<rfloor> + 1" by (metis floor_add_int floor_mono of_int_1)
  have "0 \<le> ?c" using s by (intro dbl_nonneg divide_nonneg_nonneg mult_nonneg_nonneg) simp_all
  then have "int (rect_extent d p) = \<lfloor>?c\<rfloor>" by (simp add: rect_extent_def hsize_of_double_def)
  with f1 f2 show ?thesis by simp
qed

lemma rect_extent_square:
  assumes k: "1 \<le> k" and b: "d * k < 2 ^ 53"
  shows "rect_extent d (k * k) = d * k div 10"
proof (cases "d = 0")
  case True
  then show ?thesis by (simp add: rect_extent_def hsize_of_double_def dbl_zero)
next
  case False
  have dk: "d \<le> d * k" using k by simp
  then have d53: "d < 2 ^ 53" using b by (rule le_less_trans)
  have "k \<le> d * k" using False by simp
  then have k53: "k < 2 ^ 53" using b by (rule le_less_trans)
  define n where "n = d * k div 10"
  have n53: "n < 2 ^ 53" using b by (simp add: n_def div_le_dividend [THEN le_less_trans])
  have sq: "sqrt (real (k * k)) = real k" by simp
  have prod: "dbl (dbl (real d) * dbl (sqrt (real (k * k)))) = real (d * k)"
    using dbl_of_nat [OF d53] dbl_of_nat [OF k53] dbl_of_nat [OF b] by (simp add: sq)
  let ?q = "real (d * k) / 10"
  have nq: "real n \<le> ?q"
  proof -
    have "n * 10 \<le> d * k" by (simp add: n_def)
    then have "real (n * 10) \<le> real (d * k)" by (simp only: of_nat_le_iff)
    then show ?thesis by simp
  qed
  have qn: "?q \<le> real n + 9 / 10"
  proof -
    have "d * k = n * 10 + d * k mod 10" by (simp add: n_def)
    moreover have "d * k mod 10 \<le> 9" by simp
    ultimately have "d * k \<le> n * 10 + 9" by linarith
    then have "real (d * k) \<le> real (n * 10 + 9)" by (simp only: of_nat_le_iff)
    then show ?thesis by simp
  qed
  have "dbl (real n) \<le> dbl ?q" using nq by (intro dbl_mono) simp_all
  then have lo: "real n \<le> dbl ?q" by (simp add: dbl_of_nat [OF n53])
  have "real (d * k) < real (2 ^ 53)" using b by (simp only: of_nat_less_iff)
  then have "?q / 2 ^ 53 < 1 / 10" by simp
  moreover have "dbl ?q \<le> ?q * (1 + 1 / 2 ^ 53)" by (intro dbl_upper) simp
  ultimately have hi: "dbl ?q < real n + 1" using qn by (simp add: algebra_simps)
  have fl: "\<lfloor>dbl ?q\<rfloor> = int n" using lo hi by (simp add: floor_eq_iff)
  have "rect_extent d (k * k) = nat \<lfloor>dbl (dbl (dbl (real d) * dbl (sqrt (real (k * k)))) / 10)\<rfloor>"
    by (simp only: rect_extent_def hsize_of_double_def)
  also have "\<dots> = nat \<lfloor>dbl ?q\<rfloor>" by (simp only: prod)
  also have "\<dots> = n" by (simp only: fl nat_int)
  finally show ?thesis by (simp only: n_def)
qed


text \<open>
  Up to \<open>2 ^ 22\<close> rows or columns the rounding errors are smaller than the distance of
  \<open>dimen * sqrt(select_percent) / 10\<close> from the next integer, so the extent is the floor
  of the exact value.
\<close>

lemma rect_extent_exact:
  assumes d: "d \<le> 2 ^ 22" and p: "1 \<le> p" "p \<le> 20"
  shows "rect_extent d p = nat \<lfloor>real d * sqrt (real p) / 10\<rfloor>"
proof (cases "d = 0")
  case True
  then show ?thesis by (simp add: rect_extent_def hsize_of_double_def dbl_zero)
next
  case False
  define V where "V = real d * sqrt (real p)"
  define n where "n = nat \<lfloor>V / 10\<rfloor>"
  define N where "N = 10 * n"
  define c where "c = dbl (dbl (dbl (real d) * dbl (sqrt (real p))) / 10)"
  have s: "1 \<le> sqrt (real p)" "sqrt (real p) \<le> 9 / 2" using sqrt_percent_bound [OF p] by simp_all
  have d1: "1 \<le> real d" using False by simp
  have "real d \<le> real (2 ^ 22)" using d by (simp only: of_nat_le_iff)
  then have dr: "real d \<le> 2 ^ 22" by simp
  have "1 * 1 \<le> real d * sqrt (real p)" using d1 s by (intro mult_mono) simp_all
  then have V1: "1 \<le> V" by (simp add: V_def)
  have "real d * sqrt (real p) \<le> 2 ^ 22 * (9 / 2)" using dr s by (intro mult_mono) simp_all
  then have Vlin: "V \<le> 2 ^ 25" by (simp add: V_def)
  have Vsq: "V * V = real (d * d * p)"
  proof -
    have "V * V = real d * real d * (sqrt (real p) * sqrt (real p))" by (simp add: V_def)
    also have "sqrt (real p) * sqrt (real p) = real p" by simp
    finally show ?thesis by simp
  qed
  have "d * d * p \<le> 2 ^ 22 * 2 ^ 22 * 20" using d p by (intro mult_le_mono) simp_all
  then have "real (d * d * p) \<le> real (2 ^ 22 * 2 ^ 22 * 20)" by (simp only: of_nat_le_iff)
  then have Vub: "V * V \<le> 351843720888320" by (simp add: Vsq)
  have v0: "0 \<le> V / 10" using V1 by simp
  then have rn: "real n = of_int \<lfloor>V / 10\<rfloor>" by (simp add: n_def)
  have fl: "real n \<le> V / 10" "V / 10 < real n + 1" unfolding rn by linarith+
  have NV: "real N \<le> V" "V < real N + 10" using fl by (simp_all add: N_def)
  have up: "c \<le> V / 10 * (1 + 1 / 2 ^ 50)"
    unfolding c_def V_def using s by (intro rect_value_upper) simp_all
  have lo: "V / 10 * (1 - 1 / 2 ^ 50) \<le> c"
    unfolding c_def V_def using s by (intro rect_value_lower) simp_all
  have sqle: "N * N \<le> d * d * p"
  proof -
    have "real N * real N \<le> V * V" using NV by (intro mult_mono) simp_all
    then have "real (N * N) \<le> real (d * d * p)" by (simp add: Vsq)
    then show ?thesis by (simp only: of_nat_le_iff)
  qed
  have sqlt: "d * d * p < (N + 10) * (N + 10)"
  proof -
    have "V * V < (real N + 10) * (real N + 10)" using NV V1 by (intro mult_strict_mono) simp_all
    then have "real (d * d * p) < real ((N + 10) * (N + 10))" by (simp add: Vsq)
    then show ?thesis by (simp only: of_nat_less_iff)
  qed
  have hi: "c < real n + 1"
  proof -
    have "d * d * p + 1 \<le> (N + 10) * (N + 10)" using sqlt by simp
    then have "real (d * d * p + 1) \<le> real ((N + 10) * (N + 10))" by (simp only: of_nat_le_iff)
    then have "V * V + 1 \<le> (real N + 10) * (real N + 10)" by (simp add: Vsq)
    moreover have "(real N + 10 - V) * (real N + 10 + V) = (real N + 10) * (real N + 10) - V * V"
      by (simp add: algebra_simps)
    ultimately have g: "1 \<le> (real N + 10 - V) * (real N + 10 + V)" by linarith
    have gap: "V / 2 ^ 50 < real N + 10 - V"
    proof (rule ccontr)
      assume "\<not> V / 2 ^ 50 < real N + 10 - V"
      then have a: "real N + 10 - V \<le> V / 2 ^ 50" by simp
      have "(real N + 10 - V) * (real N + 10 + V) \<le> V / 2 ^ 50 * (2 * V + 10)"
        using a NV V1 by (intro mult_mono) simp_all
      also have "\<dots> = (2 * (V * V) + 10 * V) / 2 ^ 50" by (simp add: algebra_simps)
      also have "\<dots> < 1" using Vub Vlin by simp
      finally show False using g by simp
    qed
    have g10: "V / 2 ^ 50 / 10 < (real N + 10 - V) / 10"
      using gap by (rule divide_strict_right_mono) simp
    have "c \<le> V / 10 + V / 2 ^ 50 / 10" using up by (simp add: algebra_simps)
    also have "\<dots> < V / 10 + (real N + 10 - V) / 10" using g10 by linarith
    also have "\<dots> = real n + 1" by (simp add: N_def field_simps)
    finally show ?thesis .
  qed
  show ?thesis
  proof (cases "N * N = d * d * p")
    case True
    have "d\<^sup>2 dvd N\<^sup>2" using True by (simp add: power2_eq_square)
    then have "d dvd N" by simp
    then obtain k where k: "N = d * k" ..
    have "d * d * (k * k) = d * d * p" using True by (simp add: k algebra_simps)
    then have pk: "p = k * k" using False by simp
    then have k1: "1 \<le> k" using p by (cases k) simp_all
    have "real (d * k) \<le> 2 ^ 25" using NV Vlin by (simp add: k)
    then have "real (d * k) < real (2 ^ 53)" by simp
    then have b: "d * k < 2 ^ 53" by (simp only: of_nat_less_iff)
    have "rect_extent d p = d * k div 10" unfolding pk by (rule rect_extent_square [OF k1 b])
    also have "\<dots> = n" using k by (simp add: N_def)
    finally show ?thesis by (simp add: n_def V_def)
  next
    case False
    with sqle have "N * N + 1 \<le> d * d * p" by simp
    then have "real (N * N + 1) \<le> real (d * d * p)" by (simp only: of_nat_le_iff)
    then have "real N * real N + 1 \<le> V * V" by (simp add: Vsq)
    moreover have "(V - real N) * (V + real N) = V * V - real N * real N"
      by (simp add: algebra_simps)
    ultimately have g: "1 \<le> (V - real N) * (V + real N)" by linarith
    have gap: "V / 2 ^ 50 \<le> V - real N"
    proof (rule ccontr)
      assume "\<not> V / 2 ^ 50 \<le> V - real N"
      then have a: "V - real N \<le> V / 2 ^ 50" by simp
      have "(V - real N) * (V + real N) \<le> V / 2 ^ 50 * (2 * V)"
        using a NV V1 by (intro mult_mono) simp_all
      also have "\<dots> = (2 * (V * V)) / 2 ^ 50" by (simp add: algebra_simps)
      also have "\<dots> < 1" using Vub by simp
      finally show False using g by simp
    qed
    have g10: "V / 2 ^ 50 / 10 \<le> (V - real N) / 10"
      using gap by (rule divide_right_mono) simp
    have "real n = V / 10 - (V - real N) / 10" by (simp add: N_def field_simps)
    also have "\<dots> \<le> V / 10 - V / 2 ^ 50 / 10" using g10 by linarith
    also have "\<dots> \<le> c" using lo by (simp add: algebra_simps)
    finally have "real n \<le> c" .
    with hi have "\<lfloor>c\<rfloor> = int n" by (simp add: floor_eq_iff)
    then show ?thesis by (simp add: rect_extent_def hsize_of_double_def c_def [symmetric] n_def V_def)
  qed
qed

lemma card_block_points: "card (block_points start blk) = fst blk * snd blk"
  by (simp add: block_points_def card_cartesian_product)

lemma block_points_inside:
  "fst start + fst blk \<le> m \<Longrightarrow> snd start + snd blk \<le> n \<Longrightarrow>
   block_points start blk \<subseteq> {0..<m} \<times> {0..<n}"
  by (auto simp: block_points_def)

subsection \<open>Claim C7: the rectangle stays inside the chunk\<close>

text \<open>
  C7, as the code has it. With the rectangular topology (\<open>space_select = 2\<close>), a chunk of
  at least two rows and two columns and a density between 1 and 20 percent,
  \<open>create_hyperslab\<close> makes one request, \<open>H5S_SELECT_SET\<close> of a block whose origin lies in
  the upper-left quadrant (\<open>origin.r < rows div 2\<close>, \<open>origin.c < cols div 2\<close>), whatever
  \<open>rand()\<close> returns; origin plus extent stays within the chunk in both dimensions, so the
  selection lies inside the chunk (the product \<open>cols * percent\<close> of the head of the
  function must fit a \<open>long long\<close>). For a chunk of at most \<open>2 ^ 22 = 4194304\<close> rows and
  columns (every chunk below the limit of 4 GB that \<open>-c\<close> can give), the extents, which
  the source computes in \<open>double\<close>, are \<open>floor (rows * sqrt percent / 10)\<close> and
  \<open>floor (cols * sqrt percent / 10)\<close>, and the value returned is the product of the
  extents, which is the number of selected points. In general the value returned is that
  product modulo \<open>2 ^ 64\<close>.
\<close>

theorem rectangle_inside_chunk:
  assumes rows: "2 \<le> chunk_dim1 hand" and cols: "2 \<le> chunk_dim2 hand"
    and head: "chunk_dim2 hand * p \<le> LLONG_MAX"
    and topo: "space_select hand = 2" and p1: "1 \<le> p" and p20: "p \<le> 20"
  shows "\<exists>s' origin extent.
     create_hyperslab hand rng p s = Inr s' \<and>
     hs_reqs s' = hs_reqs s @ [(H5S_SELECT_SET, origin, extent)] \<and>
     hs_sel s' = block_points origin extent \<and>
     fst origin < chunk_dim1 hand div 2 \<and> snd origin < chunk_dim2 hand div 2 \<and>
     fst origin + fst extent \<le> chunk_dim1 hand \<and>
     snd origin + snd extent \<le> chunk_dim2 hand \<and>
     hs_sel s' \<subseteq> {0..<chunk_dim1 hand} \<times> {0..<chunk_dim2 hand} \<and>
     H5Sget_select_npoints (hs_sel s') = fst extent * snd extent \<and>
     hs_nelemts s' = fst extent * snd extent mod 2 ^ 64 \<and>
     (chunk_dim1 hand \<le> 2 ^ 22 \<and> chunk_dim2 hand \<le> 2 ^ 22 \<longrightarrow>
        extent = (nat \<lfloor>real (chunk_dim1 hand) * sqrt (real p) / 10\<rfloor>,
                  nat \<lfloor>real (chunk_dim2 hand) * sqrt (real p) / 10\<rfloor>) \<and>
        hs_nelemts s' = fst extent * snd extent \<and>
        H5Sget_select_npoints (hs_sel s') = hs_nelemts s')"
proof -
  define origin where "origin = (rng (hs_rand s) mod (chunk_dim1 hand div 2),
                                 rng (hs_rand s + 1) mod (chunk_dim2 hand div 2))"
  define extent where "extent = (rect_extent (chunk_dim1 hand) p, rect_extent (chunk_dim2 hand) p)"
  define s' where "s' = (select_call H5S_SELECT_SET origin extent
                          (s\<lparr>hs_nelemts := 0, hs_rand := hs_rand s + 2\<rparr>))
                        \<lparr>hs_nelemts := fst extent * snd extent mod 2 ^ 64\<rparr>"
  have h1: "0 < chunk_dim1 hand div 2" and h2: "0 < chunk_dim2 hand div 2"
    using rows cols by simp_all
  have run: "create_hyperslab hand rng p s = Inr s'"
    using p1 topo h1 h2 head
    by (simp add: create_hyperslab_def Let_def s'_def origin_def extent_def)
  have reqs: "hs_reqs s' = hs_reqs s @ [(H5S_SELECT_SET, origin, extent)]"
    by (simp add: s'_def select_call_def)
  have sel: "hs_sel s' = block_points origin extent"
    by (simp add: s'_def select_call_def H5Sselect_hyperslab_def)
  have o1: "fst origin < chunk_dim1 hand div 2" and o2: "snd origin < chunk_dim2 hand div 2"
    using h1 h2 by (simp_all add: origin_def)
  have e1: "2 * fst extent \<le> chunk_dim1 hand" and e2: "2 * snd extent \<le> chunk_dim2 hand"
    using p1 p20 by (simp_all add: extent_def rect_extent_half)
  have in1: "fst origin + fst extent \<le> chunk_dim1 hand" using o1 e1 by linarith
  have in2: "snd origin + snd extent \<le> chunk_dim2 hand" using o2 e2 by linarith
  have sub: "hs_sel s' \<subseteq> {0..<chunk_dim1 hand} \<times> {0..<chunk_dim2 hand}"
    unfolding sel by (rule block_points_inside [OF in1 in2])
  have np: "H5Sget_select_npoints (hs_sel s') = fst extent * snd extent"
    by (simp add: sel H5Sget_select_npoints_def card_block_points)
  have nel: "hs_nelemts s' = fst extent * snd extent mod 2 ^ 64" by (simp add: s'_def)
  have small: "extent = (nat \<lfloor>real (chunk_dim1 hand) * sqrt (real p) / 10\<rfloor>,
                         nat \<lfloor>real (chunk_dim2 hand) * sqrt (real p) / 10\<rfloor>) \<and>
        hs_nelemts s' = fst extent * snd extent \<and>
        H5Sget_select_npoints (hs_sel s') = hs_nelemts s'"
    if b: "chunk_dim1 hand \<le> 2 ^ 22 \<and> chunk_dim2 hand \<le> 2 ^ 22"
  proof -
    have ext: "extent = (nat \<lfloor>real (chunk_dim1 hand) * sqrt (real p) / 10\<rfloor>,
                         nat \<lfloor>real (chunk_dim2 hand) * sqrt (real p) / 10\<rfloor>)"
      using b p1 p20 by (simp add: extent_def rect_extent_exact)
    have "fst extent \<le> 2 ^ 22" "snd extent \<le> 2 ^ 22" using e1 e2 b by linarith+
    then have "fst extent * snd extent \<le> 2 ^ 22 * 2 ^ 22" by (rule mult_le_mono)
    then have "fst extent * snd extent < 2 ^ 64" by simp
    then have "hs_nelemts s' = fst extent * snd extent" using nel by simp
    with ext np show ?thesis by simp
  qed
  from small have small': "chunk_dim1 hand \<le> 2 ^ 22 \<and> chunk_dim2 hand \<le> 2 ^ 22 \<longrightarrow>
        extent = (nat \<lfloor>real (chunk_dim1 hand) * sqrt (real p) / 10\<rfloor>,
                  nat \<lfloor>real (chunk_dim2 hand) * sqrt (real p) / 10\<rfloor>) \<and>
        hs_nelemts s' = fst extent * snd extent \<and>
        H5Sget_select_npoints (hs_sel s') = hs_nelemts s'" by (rule impI)
  show ?thesis
    apply (rule exI [of _ s'], rule exI [of _ origin], rule exI [of _ extent])
    using run reqs sel o1 o2 in1 in2 sub np nel small'
    by (intro conjI)
qed

theorem rectangle_inside_chunk_witness:
  "\<exists>s' origin.
     create_hyperslab hand_100x100 rng_id 16 (hs_init {}) = Inr s' \<and>
     hs_reqs s' = [(H5S_SELECT_SET, origin, (40, 40))] \<and>
     fst origin + 40 \<le> 100 \<and> snd origin + 40 \<le> 100 \<and>
     hs_nelemts s' = 1600 \<and> H5Sget_select_npoints (hs_sel s') = 1600"
proof -
  have h: "2 \<le> chunk_dim1 hand_100x100" "2 \<le> chunk_dim2 hand_100x100"
    "chunk_dim2 hand_100x100 * 16 \<le> LLONG_MAX"
    "space_select hand_100x100 = 2" "1 \<le> (16::nat)" "(16::nat) \<le> 20"
    by (simp_all add: hand_100x100_def LLONG_MAX_def)
  have b: "chunk_dim1 hand_100x100 \<le> 2 ^ 22 \<and> chunk_dim2 hand_100x100 \<le> 2 ^ 22"
    by (simp add: hand_100x100_def)
  have "sqrt (real 16) = 4" using real_sqrt_abs [of 4] by simp
  then have v: "nat \<lfloor>real (chunk_dim1 hand_100x100) * sqrt (real 16) / 10\<rfloor> = 40"
       "nat \<lfloor>real (chunk_dim2 hand_100x100) * sqrt (real 16) / 10\<rfloor> = 40"
    by (simp_all add: hand_100x100_def)
  from rectangle_inside_chunk [OF h, of rng_id "hs_init {}", unfolded v]
  obtain s' origin extent where a:
    "create_hyperslab hand_100x100 rng_id 16 (hs_init {}) = Inr s'"
    "hs_reqs s' = hs_reqs (hs_init {}) @ [(H5S_SELECT_SET, origin, extent)]"
    "fst origin + fst extent \<le> chunk_dim1 hand_100x100"
    "snd origin + snd extent \<le> chunk_dim2 hand_100x100"
    and c: "chunk_dim1 hand_100x100 \<le> 2 ^ 22 \<and> chunk_dim2 hand_100x100 \<le> 2 ^ 22 \<longrightarrow>
      extent = (40, 40) \<and> hs_nelemts s' = fst extent * snd extent \<and>
      H5Sget_select_npoints (hs_sel s') = hs_nelemts s'"
    by (elim exE conjE) (rule that)
  from c b have d: "extent = (40, 40)" "hs_nelemts s' = fst extent * snd extent"
    "H5Sget_select_npoints (hs_sel s') = hs_nelemts s'"
    by blast+
  from a d show ?thesis
    by (intro exI [of _ s'] exI [of _ origin]) (simp add: hs_init_def hand_100x100_def)
qed

text \<open>
  The claim as written is for every chunk. With one row or one column the quadrant is
  empty: \<open>rand() % (hand.chunk_dim1 / 2)\<close> is a remainder by zero and no block is
  produced. The same happens in \<open>main\<close> for the chunk of the options \<open>-c 0x0 -s 2\<close>. And
  for the chunk of the options \<open>-c 67108864x67108864 -s 2\<close>, of \<open>2 ^ 36\<close> rows and columns,
  the extents at 1 percent are 6871947673 each: their product, the number of points
  selected, is above \<open>2 ^ 64\<close> and is not the value returned.
\<close>

theorem rectangle_inside_chunk_counterexample:
  "create_hyperslab hand_1x1 rng_zero 1 (hs_init {}) = Inl DivisionByZero \<and>
   sparse_main [Opt_c 0 0, Opt_s 2] rng_zero = (Killed DivisionByZero, [Create_file, Create_group 1]) \<and>
   parse_command_line [Opt_c 67108864 67108864, Opt_s 2] =
     Inr (default_hand\<lparr>chunk_dim1 := 68719476736, chunk_dim2 := 68719476736, space_select := 2\<rparr>) \<and>
   (case create_hyperslab
           (default_hand\<lparr>chunk_dim1 := 68719476736, chunk_dim2 := 68719476736, space_select := 2\<rparr>)
           rng_zero 1 (hs_init {}) of
      Inl c \<Rightarrow> None
    | Inr s' \<Rightarrow> Some (hs_reqs s', H5Sget_select_npoints (hs_sel s'), hs_nelemts s')) =
     Some ([(H5S_SELECT_SET, (0, 0), (6871947673, 6871947673))],
           47223664820450114929, 10330176673031011697)"
proof -
  have a: "create_hyperslab hand_1x1 rng_zero 1 (hs_init {}) = Inl DivisionByZero \<and>
   sparse_main [Opt_c 0 0, Opt_s 2] rng_zero = (Killed DivisionByZero, [Create_file, Create_group 1])"
    by (simp add: create_hyperslab_def hand_1x1_def sparse_main_def parse_command_line_def
      validate_hand_def default_hand_def GROUP_NUM_def sparse_main_loop.simps LLONG_MAX_def)
  have b: "parse_command_line [Opt_c 67108864 67108864, Opt_s 2] =
     Inr (default_hand\<lparr>chunk_dim1 := 68719476736, chunk_dim2 := 68719476736, space_select := 2\<rparr>)"
    by (simp add: parse_command_line_def validate_hand_def default_hand_def GROUP_NUM_def)
  have e: "rect_extent 68719476736 (Suc 0) = 6871947673"
    using rect_extent_square [of 1 68719476736] by simp
  have c: "(case create_hyperslab
           (default_hand\<lparr>chunk_dim1 := 68719476736, chunk_dim2 := 68719476736, space_select := 2\<rparr>)
           rng_zero 1 (hs_init {}) of
      Inl c \<Rightarrow> None
    | Inr s' \<Rightarrow> Some (hs_reqs s', H5Sget_select_npoints (hs_sel s'), hs_nelemts s')) =
     Some ([(H5S_SELECT_SET, (0, 0), (6871947673, 6871947673))],
           47223664820450114929, 10330176673031011697)"
    by (simp add: create_hyperslab_def default_hand_def LLONG_MAX_def Let_def hs_init_def e
        select_call_def H5Sselect_hyperslab_def H5Sget_select_npoints_def card_block_points
        rng_zero_def)
  from a b c show ?thesis by simp
qed

subsection \<open>The requests of topology 3 and of frame-writer-str.c\<close>

lemma contiguous_body_reqs:
  "hs_reqs (contiguous_body rng dim2 blk1 i s) =
     hs_reqs s @ [(if i = 0 then H5S_SELECT_SET else H5S_SELECT_OR,
                   (i, rng (hs_rand s) mod hsize_sub dim2 blk1), (1, blk1))]"
  by (simp add: contiguous_body_def select_call_def Let_def)

lemma contiguous_rows_run:
  "hsize_sub dim2 blk1 \<noteq> 0 \<Longrightarrow> dim1 \<le> INT_MAX \<Longrightarrow>
   \<exists>s' new. contiguous_rows rng dim1 dim2 blk1 i s = Inr s' \<and> hs_reqs s' = hs_reqs s @ new \<and>
         list_all (\<lambda>r. snd (snd r) = (1, blk1)) new \<and> length new = dim1 - i"
proof (induction rng dim1 dim2 blk1 i s rule: contiguous_rows.induct)
  case (1 rng dim1 dim2 blk1 i s)
  show ?case
  proof (cases "i < dim1")
    case True
    have nm: "i \<noteq> INT_MAX" using True "1.prems"(2) by simp
    from "1.IH" [OF True "1.prems"(1) nm "1.prems"(1) "1.prems"(2)] obtain s' new where
      n: "contiguous_rows rng dim1 dim2 blk1 (i + 1) (contiguous_body rng dim2 blk1 i s) = Inr s'"
         "hs_reqs s' = hs_reqs (contiguous_body rng dim2 blk1 i s) @ new"
         "list_all (\<lambda>r. snd (snd r) = (1, blk1)) new" "length new = dim1 - (i + 1)"
      by (elim exE conjE) (rule that)
    obtain r where b: "hs_reqs (contiguous_body rng dim2 blk1 i s) = hs_reqs s @ [r]"
        "snd (snd r) = (1, blk1)"
      by (simp add: contiguous_body_reqs)
    have "contiguous_rows rng dim1 dim2 blk1 i s = Inr s'"
      using True nm "1.prems"(1) n(1) by (subst contiguous_rows.simps) simp
    moreover have "hs_reqs s' = hs_reqs s @ (r # new)" using n(2) b(1) by simp
    moreover have "list_all (\<lambda>r. snd (snd r) = (1, blk1)) (r # new)" using n(3) b(2) by simp
    moreover have "length (r # new) = dim1 - i" using n(4) True by simp
    ultimately show ?thesis by blast
  next
    case False
    then show ?thesis by (subst contiguous_rows.simps) simp
  qed
qed

lemma fw_select_point_reqs:
  "fw_reqs (fw_select_point rng offset this_rows this_cols n s) =
     fw_reqs s @ [(if n = 0 then H5S_SELECT_SET else H5S_SELECT_OR,
                   (fst offset + rng (fw_rand s) mod this_rows,
                    snd offset + rng (fw_rand s + 1) mod this_cols), (1, 1))]"
  by (simp add: fw_select_point_def Let_def)

declare fw_retry.simps [simp del]

lemma fw_retry_reqs:
  "\<exists>new. fw_reqs (fw_retry fuel rng offset this_rows this_cols n s) = fw_reqs s @ new \<and>
         list_all nonzero_extent new"
proof (induction fuel arbitrary: s)
  case 0
  show ?case by (subst fw_retry.simps) simp
next
  case (Suc fuel)
  from Suc [of "fw_select_point rng offset this_rows this_cols n s"]
  obtain new where
    "fw_reqs (fw_retry fuel rng offset this_rows this_cols n
                (fw_select_point rng offset this_rows this_cols n s)) =
     fw_reqs (fw_select_point rng offset this_rows this_cols n s) @ new"
    "list_all nonzero_extent new"
    by blast
  then show ?case
    by (subst fw_retry.simps) (auto simp: fw_select_point_reqs nonzero_extent_def)
qed

lemma fw_random_points_reqs:
  "\<exists>new. fw_reqs (fw_random_points fuel rng random_data offset this_rows this_cols num_points todo s) =
           fw_reqs s @ new \<and> list_all nonzero_extent new"
proof (induction todo arbitrary: s)
  case 0
  show ?case by simp
next
  case (Suc todo)
  let ?n = "num_points - Suc todo"
  let ?s1 = "fw_select_point rng offset this_rows this_cols ?n s"
  let ?s2 = "fw_retry fuel rng offset this_rows this_cols ?n ?s1"
  obtain new2 where n2: "fw_reqs ?s2 = fw_reqs ?s1 @ new2" "list_all nonzero_extent new2"
    using fw_retry_reqs by blast
  obtain r where r: "fw_reqs ?s1 = fw_reqs s @ [r]" "nonzero_extent r"
    by (simp add: fw_select_point_reqs nonzero_extent_def)
  show ?case
  proof (cases "fw_stuck ?s2")
    case True
    then have "fw_reqs (fw_random_points fuel rng random_data offset this_rows this_cols num_points (Suc todo) s)
        = fw_reqs s @ (r # new2)"
      using n2 r by (simp add: Let_def)
    moreover have "list_all nonzero_extent (r # new2)" using n2 r by simp
    ultimately show ?thesis by blast
  next
    case False
    let ?s3 = "if random_data then ?s2\<lparr>fw_rand := fw_rand ?s2 + 1\<rparr> else ?s2"
    from Suc [of ?s3] obtain new3 where
      n3: "fw_reqs (fw_random_points fuel rng random_data offset this_rows this_cols num_points todo ?s3)
           = fw_reqs ?s3 @ new3" "list_all nonzero_extent new3"
      by blast
    have "fw_reqs ?s3 = fw_reqs ?s2" by simp
    then have "fw_reqs (fw_random_points fuel rng random_data offset this_rows this_cols num_points (Suc todo) s)
        = fw_reqs s @ (r # new2 @ new3)"
      using False n2 r n3 by (simp add: Let_def)
    moreover have "list_all nonzero_extent (r # new2 @ new3)" using n2 r n3 by simp
    ultimately show ?thesis by blast
  qed
qed

lemma fw_mfrac_range:
  assumes "0 \<le> m" "m \<le> 100"
  shows "0 \<le> fw_mfrac m" and "fw_mfrac m \<le> 1"
proof -
  have one: "dbl 1 = 1" and hundred: "dbl 100 = 100"
    using dbl_of_nat [of 1] dbl_of_nat [of 100] by simp_all
  have m0: "0 \<le> dbl m" using assms by (intro dbl_nonneg)
  then show "0 \<le> fw_mfrac m" unfolding fw_mfrac_def by (intro dbl_nonneg) simp
  have "dbl m \<le> dbl 100" using assms by (intro dbl_mono)
  then have "dbl m / 100 \<le> 1" by (simp add: hundred)
  then have "dbl (dbl m / 100) \<le> dbl 1" using m0 by (intro dbl_mono) simp_all
  then show "fw_mfrac m \<le> 1" by (simp add: fw_mfrac_def one)
qed

text \<open>The slab of the contiguous pattern has between 1 and \<open>this_rows\<close> rows.\<close>

lemma slab_extent_range:
  assumes f: "0 \<le> mfrac" "mfrac \<le> 1" and n: "1 \<le> n" "n < 2 ^ 53"
  shows "hsize_of_double (dbl (dbl (real n) * dbl (sqrt mfrac))) \<le> n"
proof -
  have one: "dbl 1 = 1" using dbl_of_nat [of 1] by simp
  have s0: "0 \<le> sqrt mfrac" and s1: "sqrt mfrac \<le> 1" using f by simp_all
  have "dbl (sqrt mfrac) \<le> dbl 1" using s0 s1 by (intro dbl_mono)
  then have r1: "dbl (sqrt mfrac) \<le> 1" by (simp add: one)
  have r0: "0 \<le> dbl (sqrt mfrac)" using s0 by (rule dbl_nonneg)
  have dn: "dbl (real n) = real n" by (rule dbl_of_nat [OF n(2)])
  have "real n * dbl (sqrt mfrac) \<le> real n * 1" using r1 by (intro mult_left_mono) simp_all
  then have "dbl (real n * dbl (sqrt mfrac)) \<le> dbl (real n)" using r0 by (intro dbl_mono) simp_all
  then have "dbl (dbl (real n) * dbl (sqrt mfrac)) \<le> real n" by (simp add: dn)
  then have "\<lfloor>dbl (dbl (real n) * dbl (sqrt mfrac))\<rfloor> \<le> int n" by (simp add: floor_le_iff)
  then show ?thesis by (simp add: hsize_of_double_def)
qed

lemma fw_slab_range:
  assumes f: "0 \<le> mfrac" "mfrac \<le> 1"
    and r: "1 \<le> this_rows" "this_rows < 2 ^ 53" and c: "1 \<le> this_cols" "this_cols < 2 ^ 53"
  shows "1 \<le> fst (fw_slab this_rows this_cols mfrac)"
    and "fst (fw_slab this_rows this_cols mfrac) \<le> this_rows"
    and "1 \<le> snd (fw_slab this_rows this_cols mfrac)"
    and "snd (fw_slab this_rows this_cols mfrac) \<le> this_cols"
  using slab_extent_range [OF f r] slab_extent_range [OF f c] r(1) c(1)
  by (simp_all add: fw_slab_def Let_def)

lemma fw_num_points_pos: "1 \<le> fw_num_points this_rows this_cols mfrac"
  by (simp add: fw_num_points_def Let_def)

lemma hsize_sub_small:
  assumes "b \<le> a" "a < 2 ^ 64"
  shows "hsize_sub a b = a - b"
proof -
  have "b < 2 ^ 64" using assms by simp
  then have k: "b mod 2 ^ 64 = b" by (rule mod_less)
  have "a + 2 ^ 64 - b = (a - b) + 2 ^ 64" using assms by simp
  then have "hsize_sub a b = ((a - b) + 2 ^ 64) mod 2 ^ 64" by (simp only: hsize_sub_def k)
  also have "\<dots> = (a - b) mod 2 ^ 64" by (rule mod_add_self2)
  also have "\<dots> = a - b" using assms by (intro mod_less) simp
  finally show ?thesis .
qed

lemma hsize_span:
  assumes "1 \<le> k" "k \<le> n" "n < 2 ^ 53"
  shows "(hsize_sub n k + 1) mod 2 ^ 64 \<noteq> 0"
proof -
  have "n < 2 ^ 64" using assms by simp
  then have "hsize_sub n k = n - k" using assms by (intro hsize_sub_small)
  moreover have "n - k + 1 < 2 ^ 64" using assms by simp
  ultimately show ?thesis by simp
qed

lemma fw_chunk_reqs:
  assumes m: "0 \<le> m" "m \<le> 100"
    and r: "1 \<le> this_rows" "this_rows < 2 ^ 32" and c: "1 \<le> this_cols" "this_cols < 2 ^ 32"
  shows "\<exists>s' new. fw_chunk fuel rng random_pattern random_data offset this_rows this_cols m s = Inr s' \<and>
           fw_reqs s' = fw_reqs s @ new \<and> list_all nonzero_extent new"
proof (cases random_pattern)
  case True
  let ?n = "fw_num_points this_rows this_cols (fw_mfrac m)"
  have "fw_chunk fuel rng random_pattern random_data offset this_rows this_cols m s =
      Inr (fw_random_points fuel rng random_data offset this_rows this_cols ?n ?n s)"
    using True by (simp add: fw_chunk_def Let_def)
  then show ?thesis using fw_random_points_reqs by blast
next
  case False
  let ?slab = "fw_slab this_rows this_cols (fw_mfrac m)"
  have r53: "this_rows < 2 ^ 53" and c53: "this_cols < 2 ^ 53" using r c by simp_all
  note sl = fw_slab_range [OF fw_mfrac_range [OF m] r(1) r53 c(1) c53]
  have sp: "(hsize_sub this_rows (fst ?slab) + 1) mod 2 ^ 64 \<noteq> 0"
       "(hsize_sub this_cols (snd ?slab) + 1) mod 2 ^ 64 \<noteq> 0"
    using hsize_span [OF sl(1) sl(2) r53] hsize_span [OF sl(3) sl(4) c53] by simp_all
  have nz: "nonzero_extent (a, b, ?slab)" for a b
    using sl(1) sl(3) by (simp add: nonzero_extent_def)
  show ?thesis
    using False sp nz by (simp add: fw_chunk_def fw_contiguous_def Let_def)
qed

lemma create_hyperslab_reqs:
  assumes rows: "10 \<le> chunk_dim1 hand" and rows_int: "chunk_dim1 hand \<le> INT_MAX"
    and cols: "100 \<le> chunk_dim2 hand" and sel_int: "chunk_dim2 hand * p div 100 \<le> INT_MAX"
    and p1: "1 \<le> p" and p20: "p \<le> 20"
    and topo: "1 \<le> space_select hand" "space_select hand \<le> 3"
  shows "\<exists>s' new. create_hyperslab hand rng p s = Inr s' \<and>
           hs_reqs s' = hs_reqs s @ new \<and> list_all nonzero_extent new"
proof -
  note head = product_in_range [OF sel_int]
  from topo consider "space_select hand = 1" | "space_select hand = 2" | "space_select hand = 3"
    by linarith
  then show ?thesis
  proof cases
    case 1
    define ns where "ns = chunk_dim2 hand * p div 100"
    define sect where "sect = 100 div p"
    define s0 where "s0 = s\<lparr>hs_nelemts := 0\<rparr>"
    have sect: "0 < sect" using sections_pos [OF p1 p20] by (simp add: sect_def)
    have nsi: "ns \<le> INT_MAX" using sel_int by (simp add: ns_def)
    have r0: "hs_rand s0 = hs_rand s + 0 * ns" by (simp add: s0_def)
    let ?new = "concat (map (\<lambda>i'. map (\<lambda>j'. (scattered_oper (i', j'),
                   scattered_point rng sect ns (hs_rand s) (i', j'), (1, 1))) [0..<ns])
                 [0..<chunk_dim1 hand])"
    from scattered_rows_run [OF sect nsi rows_int le0 r0, of rng]
    obtain s' where loop: "scattered_rows rng sect ns (chunk_dim1 hand) 0 s0 = Inr s'"
      and reqs: "hs_reqs s' = hs_reqs s0 @ ?new"
      by (elim exE conjE) (rule that)
    have run: "create_hyperslab hand rng p s = Inr s'"
      using p1 1 loop head by (simp add: create_hyperslab_def Let_def s0_def sect_def ns_def)
    have "hs_reqs s' = hs_reqs s @ ?new" using reqs by (simp add: s0_def)
    moreover have "list_all nonzero_extent ?new"
      by (simp add: list_all_iff nonzero_extent_def)
    ultimately show ?thesis using run by blast
  next
    case 2
    have h: "0 < chunk_dim1 hand div 2" "0 < chunk_dim2 hand div 2" using rows cols by simp_all
    have e: "1 \<le> rect_extent (chunk_dim1 hand) p" "1 \<le> rect_extent (chunk_dim2 hand) p"
      using rect_extent_pos [OF rows p1] rect_extent_pos [of "chunk_dim2 hand" p] cols p1 by simp_all
    show ?thesis
      using p1 2 h e head
      by (simp add: create_hyperslab_def Let_def select_call_def nonzero_extent_def)
  next
    case 3
    define blk1 where "blk1 = chunk_dim2 hand * p div 100"
    define s0 where "s0 = s\<lparr>hs_nelemts := 0\<rparr>"
    have "100 * 1 \<le> chunk_dim2 hand * p" using cols p1 by (intro mult_le_mono) simp_all
    then have b1: "1 \<le> blk1" by (simp add: blk1_def less_eq_div_iff_mult_less_eq)
    have "chunk_dim2 hand * p \<le> chunk_dim2 hand * 20" using p20 by simp
    then have "blk1 \<le> chunk_dim2 hand * 20 div 100" unfolding blk1_def by (rule div_le_mono)
    also have "\<dots> < chunk_dim2 hand" using cols by simp
    finally have b2: "blk1 < chunk_dim2 hand" .
    have "chunk_dim2 hand \<le> chunk_dim2 hand * p" using p1 by simp
    with head have "chunk_dim2 hand \<le> LLONG_MAX" by linarith
    then have c64: "chunk_dim2 hand < 2 ^ 64" by (simp add: LLONG_MAX_def)
    have "hsize_sub (chunk_dim2 hand) blk1 = chunk_dim2 hand - blk1"
      using b2 c64 by (intro hsize_sub_small) simp_all
    then have nz: "hsize_sub (chunk_dim2 hand) blk1 \<noteq> 0" using b2 by simp
    from contiguous_rows_run [OF nz rows_int, of rng 0 s0]
    obtain s1 new where n: "contiguous_rows rng (chunk_dim1 hand) (chunk_dim2 hand) blk1 0 s0 = Inr s1"
        "hs_reqs s1 = hs_reqs s0 @ new" "list_all (\<lambda>r. snd (snd r) = (1, blk1)) new"
      by (elim exE conjE) (rule that)
    have run: "create_hyperslab hand rng p s =
        Inr (s1\<lparr>hs_nelemts := (chunk_dim1 hand * blk1) mod 2 ^ 64\<rparr>)"
      using p1 3 n(1) head by (simp add: create_hyperslab_def Let_def s0_def blk1_def run_length_def)
    have "list_all nonzero_extent new"
      using n(3) b1 by (auto simp: list_all_iff nonzero_extent_def)
    then show ?thesis using run n(2) by (simp add: s0_def)
  qed
qed

subsection \<open>Claim C8: no request of extent zero\<close>

text \<open>
  C8, as the code has it. frame-writer-str.c clamps: its point count and its slab
  extents are raised to 1 when they are computed as 0, so for every chunk of at least one
  row and one column (below \<open>2 ^ 32\<close>) and every fraction \<open>m\<close> from 0 to 100 they are at
  least 1, the selection of the chunk is produced, and every block requested for it
  (\<open>{1, 1}\<close> in the random pattern, the slab in the contiguous one) has a non-zero extent
  in both dimensions, at every stage of the run. sparse.c has no clamp in
  \<open>create_hyperslab\<close>; there the computed extents are themselves non-zero for every chunk
  of at least 10 rows and 100 columns whose rows and points per row fit the \<open>int\<close>
  counters of the loops, every density between 1 and 20 percent and each of the three
  topologies: the function returns and every block it requests has a non-zero extent in
  both dimensions.
\<close>

theorem extents_never_zero:
  "(0 \<le> m \<and> m \<le> 100 \<and> 1 \<le> this_rows \<and> this_rows < 2 ^ 32 \<and>
    1 \<le> this_cols \<and> this_cols < 2 ^ 32 \<longrightarrow>
      1 \<le> fw_num_points this_rows this_cols (fw_mfrac m) \<and>
      1 \<le> fst (fw_slab this_rows this_cols (fw_mfrac m)) \<and>
      1 \<le> snd (fw_slab this_rows this_cols (fw_mfrac m)) \<and>
      (\<exists>fs' new. fw_chunk fuel rng random_pattern random_data offset this_rows this_cols m fs = Inr fs' \<and>
         fw_reqs fs' = fw_reqs fs @ new \<and> list_all nonzero_extent new)) \<and>
   (10 \<le> chunk_dim1 hand \<and> chunk_dim1 hand \<le> INT_MAX \<and>
    100 \<le> chunk_dim2 hand \<and> chunk_dim2 hand * p div 100 \<le> INT_MAX \<and> 1 \<le> p \<and> p \<le> 20 \<and>
    1 \<le> space_select hand \<and> space_select hand \<le> 3 \<longrightarrow>
      (\<exists>s' new. create_hyperslab hand rng p s = Inr s' \<and>
         hs_reqs s' = hs_reqs s @ new \<and> list_all nonzero_extent new))"
proof (intro conjI impI)
  assume a: "0 \<le> m \<and> m \<le> 100 \<and> 1 \<le> this_rows \<and> this_rows < 2 ^ 32 \<and>
    1 \<le> this_cols \<and> this_cols < 2 ^ 32"
  then have r53: "this_rows < 2 ^ 53" and c53: "this_cols < 2 ^ 53" by simp_all
  from a have m: "0 \<le> m" "m \<le> 100" and r: "1 \<le> this_rows" and c: "1 \<le> this_cols" by simp_all
  note sl = fw_slab_range [OF fw_mfrac_range [OF m] r r53 c c53]
  show "1 \<le> fw_num_points this_rows this_cols (fw_mfrac m)" by (rule fw_num_points_pos)
  show "1 \<le> fst (fw_slab this_rows this_cols (fw_mfrac m))" by (rule sl(1))
  show "1 \<le> snd (fw_slab this_rows this_cols (fw_mfrac m))" by (rule sl(3))
  show "\<exists>fs' new. fw_chunk fuel rng random_pattern random_data offset this_rows this_cols m fs = Inr fs' \<and>
         fw_reqs fs' = fw_reqs fs @ new \<and> list_all nonzero_extent new"
    using a by (intro fw_chunk_reqs) simp_all
next
  assume "10 \<le> chunk_dim1 hand \<and> chunk_dim1 hand \<le> INT_MAX \<and>
    100 \<le> chunk_dim2 hand \<and> chunk_dim2 hand * p div 100 \<le> INT_MAX \<and> 1 \<le> p \<and> p \<le> 20 \<and>
    1 \<le> space_select hand \<and> space_select hand \<le> 3"
  then show "\<exists>s' new. create_hyperslab hand rng p s = Inr s' \<and>
         hs_reqs s' = hs_reqs s @ new \<and> list_all nonzero_extent new"
    by (intro create_hyperslab_reqs) simp_all
qed

theorem extents_never_zero_witness:
  "1 \<le> fw_num_points 10 10 (fw_mfrac 0) \<and>
   1 \<le> fst (fw_slab 10 10 (fw_mfrac 0)) \<and> 1 \<le> snd (fw_slab 10 10 (fw_mfrac 0)) \<and>
   (\<exists>fs'. fw_chunk 0 rng_zero False False (0, 0) 10 10 0 fw_init = Inr fs' \<and>
      list_all nonzero_extent (fw_reqs fs')) \<and>
   (\<exists>s'. create_hyperslab (default_hand\<lparr>space_select := 3\<rparr>) rng_zero 1 (hs_init {}) = Inr s' \<and>
      list_all nonzero_extent (hs_reqs s'))"
proof -
  note t = extents_never_zero [of 0 10 10 0 rng_zero False False "(0, 0)" fw_init
      "default_hand\<lparr>space_select := 3\<rparr>" 1 "hs_init {}"]
  have h: "(0::real) \<le> 0 \<and> (0::real) \<le> 100 \<and> 1 \<le> (10::nat) \<and> (10::nat) < 2 ^ 32 \<and>
      1 \<le> (10::nat) \<and> (10::nat) < 2 ^ 32"
    by simp
  from t h have a: "1 \<le> fw_num_points 10 10 (fw_mfrac 0)"
    and b: "1 \<le> fst (fw_slab 10 10 (fw_mfrac 0))" "1 \<le> snd (fw_slab 10 10 (fw_mfrac 0))"
    and "\<exists>fs' new. fw_chunk 0 rng_zero False False (0, 0) 10 10 0 fw_init = Inr fs' \<and>
         fw_reqs fs' = fw_reqs fw_init @ new \<and> list_all nonzero_extent new"
    by blast+
  then obtain fs' new where c: "fw_chunk 0 rng_zero False False (0, 0) 10 10 0 fw_init = Inr fs'"
    "fw_reqs fs' = fw_reqs fw_init @ new" "list_all nonzero_extent new"
    by (elim exE conjE) (rule that)
  then have d: "list_all nonzero_extent (fw_reqs fs')" by (simp add: fw_init_def)
  have "10 \<le> chunk_dim1 (default_hand\<lparr>space_select := 3\<rparr>) \<and>
        chunk_dim1 (default_hand\<lparr>space_select := 3\<rparr>) \<le> INT_MAX \<and>
        100 \<le> chunk_dim2 (default_hand\<lparr>space_select := 3\<rparr>) \<and>
        chunk_dim2 (default_hand\<lparr>space_select := 3\<rparr>) * 1 div 100 \<le> INT_MAX \<and>
        1 \<le> (1::nat) \<and> (1::nat) \<le> 20 \<and>
        1 \<le> space_select (default_hand\<lparr>space_select := 3\<rparr>) \<and>
        space_select (default_hand\<lparr>space_select := 3\<rparr>) \<le> 3"
    by (simp add: default_hand_def CHUNK_DIM1_def CHUNK_DIM2_def INT_MAX_def)
  with t obtain s' new' where
    e: "create_hyperslab (default_hand\<lparr>space_select := 3\<rparr>) rng_zero 1 (hs_init {}) = Inr s'"
       "hs_reqs s' = hs_reqs (hs_init {}) @ new'" "list_all nonzero_extent new'"
    by blast
  then have "list_all nonzero_extent (hs_reqs s')" by (simp add: hs_init_def)
  with a b c(1) d e(1) show ?thesis by blast
qed

text \<open>
  The claim as written is for every chunk shape and says that a length that floors to 0
  is clamped to 1. In \<open>create_hyperslab\<close> it is not. The options \<open>-c 1x0 -s 3\<close> are
  accepted and give a chunk of 1024 rows and no column: topology 3 computes the run
  length \<open>0 * 1 / 100 = 0\<close> and uses it as it is, so the offset of the first run is
  \<open>rand() % (0 - 0)\<close>, a remainder by zero that ends the process.
\<close>

theorem extents_never_zero_counterexample:
  "parse_command_line [Opt_c 1 0, Opt_s 3] =
     Inr (default_hand\<lparr>chunk_dim1 := 1024, chunk_dim2 := 0, space_select := 3\<rparr>) \<and>
   run_length (default_hand\<lparr>chunk_dim1 := 1024, chunk_dim2 := 0, space_select := 3\<rparr>) 1 = 0 \<and>
   sparse_main [Opt_c 1 0, Opt_s 3] rng_zero = (Killed DivisionByZero, [Create_file, Create_group 1])"
  by (simp add: parse_command_line_def validate_hand_def default_hand_def GROUP_NUM_def
      run_length_def sparse_main_def sparse_main_loop.simps create_hyperslab_def LLONG_MAX_def
      contiguous_rows.simps hsize_sub_def Let_def)

section \<open>Properties of the encoded selection\<close>

subsection \<open>Decoding an encoding\<close>

declare fields_of.simps [simp del]

lemma length_le_bytes: "length (le_bytes k n) = k"
  by (induction k arbitrary: n) simp_all

lemma le_nat_le_bytes: "n < 256 ^ k \<Longrightarrow> le_nat (le_bytes k n) = n"
proof (induction k arbitrary: n)
  case 0
  then show ?case by simp
next
  case (Suc k)
  have "n div 256 < 256 ^ k" using Suc.prems by (simp add: less_mult_imp_div_less mult.commute)
  then have "le_nat (le_bytes k (n div 256)) = n div 256" by (rule Suc.IH)
  moreover have "unat (word_of_nat (n mod 256) :: byte) = n mod 256"
    by (simp add: unat_of_nat)
  ultimately show ?case by simp
qed

lemma fields_of_encoded:
  "list_all (\<lambda>x. x < 2 ^ 64) xs \<Longrightarrow> fields_of (concat (map (le_bytes 8) xs)) = Some xs"
proof (induction xs)
  case Nil
  show ?case by (subst fields_of.simps) simp
next
  case (Cons x xs)
  then have x: "x < 256 ^ 8" and xs: "list_all (\<lambda>x. x < 2 ^ 64) xs" by simp_all
  let ?rest = "concat (map (le_bytes 8) xs)"
  have ne: "le_bytes 8 x @ ?rest \<noteq> []"
    using length_le_bytes [of 8 x] by (metis length_0_conv append_is_Nil_conv zero_neq_numeral)
  have tk: "take 8 (le_bytes 8 x @ ?rest) = le_bytes 8 x"
    and dr: "drop 8 (le_bytes 8 x @ ?rest) = ?rest"
    by (simp_all add: length_le_bytes)
  have "fields_of (le_bytes 8 x @ ?rest) =
        map_option (\<lambda>fs. le_nat (le_bytes 8 x) # fs) (fields_of ?rest)"
    using ne by (subst fields_of.simps) (simp only: tk dr length_append length_le_bytes, simp)
  then show ?case
    using Cons.IH [OF xs] le_nat_le_bytes [OF x] by simp
qed

lemma parse_blocks_fields:
  "list_all (\<lambda>b. length (fst b) = r \<and> length (snd b) = r) bl \<Longrightarrow>
   parse_blocks r (length bl) (concat (map block_fields bl)) = Some bl"
  by (induction bl) (simp_all add: block_fields_def)

lemma decode_encode:
  assumes "encodable s"
  shows "decode (encode s) = Some s"
proof -
  let ?fs = "concat (map block_fields (sel_blocks s))"
  from assms have r: "sel_rank s < 2 ^ 64" and n: "length (sel_blocks s) < 2 ^ 64"
    and shape: "list_all (\<lambda>b. length (fst b) = sel_rank s \<and> length (snd b) = sel_rank s) (sel_blocks s)"
    and small: "list_all (\<lambda>b. list_all (\<lambda>x. x < 2 ^ 64) (fst b) \<and> list_all (\<lambda>x. x < 2 ^ 64) (snd b)) (sel_blocks s)"
    by (simp_all add: encodable_def list_all_iff)
  from small have "list_all (\<lambda>x. x < 2 ^ 64) ?fs"
    by (auto simp: list_all_iff block_fields_def)
  with r n have "list_all (\<lambda>x. x < 2 ^ 64) (CODEC_VERSION # sel_rank s # length (sel_blocks s) # ?fs)"
    by (simp add: CODEC_VERSION_def)
  then have "fields_of (encode s) = Some (CODEC_VERSION # sel_rank s # length (sel_blocks s) # ?fs)"
    unfolding encode_def by (rule fields_of_encoded)
  then show ?thesis
    by (simp add: decode_def parse_blocks_fields [OF shape])
qed

lemma requested_selection_encodable:
  "list_all (\<lambda>r. fst (fst (snd r)) < 2 ^ 64 \<and> snd (fst (snd r)) < 2 ^ 64 \<and>
                  fst (snd (snd r)) < 2 ^ 64 \<and> snd (snd (snd r)) < 2 ^ 64) reqs \<Longrightarrow>
   length reqs < 2 ^ 64 \<Longrightarrow> encodable (requested_selection reqs)"
  by (simp add: encodable_def requested_selection_def list_all_iff)

subsection \<open>Claim C1: the round trip of a selection\<close>

text \<open>
  C1. For every canonical selection \<open>s\<close>, decoding the encoding of \<open>s\<close> gives \<open>s\<close> back:
  the decoded selection has the same enumeration order and the same point set, and
  encoding it again gives the same bytes. The buffer that \<open>create_encoded_dspace\<close> writes
  to the dataset \<open>selection\<close> is the encoding of the selection of the dataspace, and
  decoding that buffer gives the selection back. (Only the shape of the blocks and the
  size of the numbers are used; the absence of overlaps is not.)
\<close>

theorem selection_round_trip:
  assumes "canonical s"
  shows "decode (encode s) = Some s \<and>
     map_option enumeration (decode (encode s)) = Some (enumeration s) \<and>
     map_option point_set (decode (encode s)) = Some (point_set s) \<and>
     map_option encode (decode (encode s)) = Some (encode s) \<and>
     (\<exists>d. fst (create_encoded_dspace deflated grp s index st) SELECTION_DSET_NAME = Some d \<and>
          ds_data d = encode s \<and> decode (ds_data d) = Some s)"
proof -
  from assms have "encodable s" by (simp add: canonical_def)
  then have d: "decode (encode s) = Some s" by (rule decode_encode)
  have n: "SELECTION_DSET_NAME \<noteq> SELECTION_DSET_COMPRESSED_NAME"
    by (simp add: SELECTION_DSET_NAME_def SELECTION_DSET_COMPRESSED_NAME_def)
  have "fst (create_encoded_dspace deflated grp s index st) SELECTION_DSET_NAME =
        Some \<lparr>ds_dim = length (encode s), ds_deflate = None, ds_data = encode s\<rparr>"
    using n by (simp add: create_encoded_dspace_def Let_def H5Sencode_def)
  with d show ?thesis by simp
qed

theorem selection_round_trip_witness:
  "canonical two_rows \<and> decode (encode two_rows) = Some two_rows \<and>
   length (encode two_rows) = 88 \<and>
   (\<exists>d. fst (create_encoded_dspace length Map.empty two_rows 0 st_start) ''selection'' = Some d \<and>
        decode (ds_data d) = Some two_rows)"
proof -
  have c: "canonical two_rows"
    by (simp add: canonical_def encodable_def two_rows_def blocks_overlap_def)
  note t = selection_round_trip [OF c, of length Map.empty 0 st_start, unfolded SELECTION_DSET_NAME_def]
  have l: "length (encode two_rows) = 88"
    by (simp add: encode_def two_rows_def length_concat length_le_bytes block_fields_def comp_def)
  from t have "decode (encode two_rows) = Some two_rows"
    and "\<exists>d. fst (create_encoded_dspace length Map.empty two_rows 0 st_start) ''selection'' = Some d \<and>
        decode (ds_data d) = Some two_rows"
    by blast+
  with c l show ?thesis by (intro conjI)
qed

section \<open>Properties of vl.c\<close>

subsection \<open>Claim C3: the offset/length index\<close>

declare vl_loop.simps [simp del]

lemma pairs_from_snoc:
  "pairs_from off (es @ [e]) = pairs_from off es @ [off + sum_list (map length es), length e]"
  by (induction es arbitrary: off) (simp_all add: add.assoc)

lemma length_pairs_from: "length (pairs_from off es) = 2 * length es"
  by (induction es arbitrary: off) simp_all

lemma pairs_from_nth:
  "i < length es \<Longrightarrow>
   pairs_from off es ! (2 * i) = off + sum_list (map length (take i es)) \<and>
   pairs_from off es ! (2 * i + 1) = length (es ! i)"
proof (induction es arbitrary: off i)
  case Nil
  then show ?case by simp
next
  case (Cons e es)
  show ?case
  proof (cases i)
    case 0
    then show ?thesis by simp
  next
    case (Suc i')
    with Cons.prems have "i' < length es" by simp
    from Cons.IH [OF this, of "off + length e"] show ?thesis
      by (simp add: Suc add.assoc)
  qed
qed

lemma copy_strings_concat: "copy_strings es buf = buf @ concat es"
  by (induction es arbitrary: buf) simp_all

lemma vl_body_inv: "vl_inv s \<Longrightarrow> vl_inv (vl_body hand rng s)"
  by (cases "vl_element hand rng (vl_rand s)")
     (simp add: vl_inv_def vl_body_def pairs_from_snoc)

lemma vl_body_length: "length (vl_data (vl_body hand rng s)) = length (vl_data s) + 1"
  by (cases "vl_element hand rng (vl_rand s)") (simp add: vl_body_def)

lemma vl_loop_inv:
  "vl_inv s \<Longrightarrow> vl_inv (vl_loop hand rng i s)"
proof (induction hand rng i s rule: vl_loop.induct)
  case (1 hand rng i s)
  show ?case
  proof (cases "i < vl_nelemts hand")
    case True
    then show ?thesis
      using "1.IH" [OF True vl_body_inv [OF "1.prems"]]
      by (subst vl_loop.simps) simp
  next
    case False
    then show ?thesis using "1.prems" by (subst vl_loop.simps) simp
  qed
qed

lemma vl_loop_length:
  "i \<le> vl_nelemts hand \<Longrightarrow>
   length (vl_data (vl_loop hand rng i s)) = length (vl_data s) + (vl_nelemts hand - i)"
proof (induction hand rng i s rule: vl_loop.induct)
  case (1 hand rng i s)
  show ?case
  proof (cases "i < vl_nelemts hand")
    case True
    then show ?thesis
      using "1.IH" [OF True]
      by (subst vl_loop.simps) (simp add: vl_body_length)
  next
    case False
    then show ?thesis using "1.prems" by (subst vl_loop.simps) simp
  qed
qed

text \<open>
  C3. For every handler with at least one element and a maximal length of at least one
  (what \<open>parse_command_line\<close> accepts), every data policy and every outcome of \<open>rand()\<close>,
  \<open>create_dsets\<close> has built, before it writes anything: \<open>nelemts\<close> elements and
  \<open>2 * nelemts\<close> pair entries; the first offset is 0; the offset of pair \<open>i\<close> is the sum
  of the lengths of the elements before \<open>i\<close> and its length is the length of element \<open>i\<close>;
  the last offset plus the last length is \<open>total_len\<close>, which is the length of the blob;
  and the blob \<open>all_strings\<close> is the concatenation of the elements in order.
\<close>

theorem vl_index_invariant:
  assumes n: "1 \<le> vl_nelemts hand" and m: "1 \<le> vl_max_len hand"
  shows "\<exists>b. create_dsets hand rng = Inr b \<and>
     length (b_vl_data b) = vl_nelemts hand \<and>
     length (b_the_pairs b) = 2 * vl_nelemts hand \<and>
     b_the_pairs b ! 0 = 0 \<and>
     (\<forall>i<vl_nelemts hand.
        b_the_pairs b ! (2 * i) = sum_list (map length (take i (b_vl_data b))) \<and>
        b_the_pairs b ! (2 * i + 1) = length (b_vl_data b ! i)) \<and>
     b_the_pairs b ! (2 * (vl_nelemts hand - 1)) + b_the_pairs b ! (2 * (vl_nelemts hand - 1) + 1)
       = b_total_len b \<and>
     b_total_len b = length (b_all_strings b) \<and>
     b_all_strings b = concat (b_vl_data b)"
proof -
  define s where "s = vl_loop hand rng 0 vl_init"
  define b where "b = \<lparr>b_vl_data = vl_data s, b_the_pairs = the_pairs s, b_total_len = total_len s,
                 b_all_strings = copy_strings (vl_data s) []\<rparr>"
  have run: "create_dsets hand rng = Inr b"
    using m by (simp add: create_dsets_def Let_def b_def s_def)
  have "vl_inv vl_init" by (simp add: vl_inv_def vl_init_def)
  then have inv: "vl_inv s" unfolding s_def by (rule vl_loop_inv)
  have len: "length (vl_data s) = vl_nelemts hand"
    unfolding s_def by (simp add: vl_loop_length vl_init_def)
  have pairs: "the_pairs s = pairs_from 0 (vl_data s)" using inv by (simp add: vl_inv_def)
  have tot: "total_len s = sum_list (map length (vl_data s))" using inv by (simp add: vl_inv_def)
  have nth: "the_pairs s ! (2 * i) = sum_list (map length (take i (vl_data s))) \<and>
             the_pairs s ! (2 * i + 1) = length (vl_data s ! i)" if "i < vl_nelemts hand" for i
    using pairs_from_nth [of i "vl_data s" 0] that len by (simp add: pairs)
  have first: "the_pairs s ! 0 = 0" using nth [of 0] n by simp
  have last: "the_pairs s ! (2 * (vl_nelemts hand - 1)) +
              the_pairs s ! (2 * (vl_nelemts hand - 1) + 1) = total_len s"
  proof -
    let ?k = "vl_nelemts hand - 1"
    have k: "?k < vl_nelemts hand" using n by simp
    have "vl_data s = take ?k (vl_data s) @ [vl_data s ! ?k]"
      using len k by (metis Suc_diff_1 n Suc_le_lessD take_Suc_conv_app_nth take_all le_refl One_nat_def)
    then have "sum_list (map length (vl_data s)) =
               sum_list (map length (take ?k (vl_data s))) + length (vl_data s ! ?k)"
      by (metis (no_types) map_append sum_list_append list.simps(8,9) sum_list.Cons sum_list.Nil add_0_right)
    then show ?thesis using nth [OF k] tot by simp
  qed
  have blob: "copy_strings (vl_data s) [] = concat (vl_data s)"
    by (simp add: copy_strings_concat)
  have bl: "total_len s = length (copy_strings (vl_data s) [])"
    by (simp add: blob tot length_concat)
  show ?thesis
    using run len pairs first nth last bl blob
    by (intro exI [of _ b]) (simp add: b_def length_pairs_from)
qed

theorem vl_index_invariant_witness:
  "create_dsets vl_hand_example rng_id =
     Inr \<lparr>b_vl_data = [[0], [0, 1], [0, 1, 2]], b_the_pairs = [0, 1, 1, 2, 3, 3],
          b_total_len = 6, b_all_strings = [0, 0, 1, 0, 1, 2]\<rparr> \<and>
   (\<exists>b. create_dsets vl_hand_example rng_id = Inr b \<and>
      b_the_pairs b ! 0 = 0 \<and>
      b_the_pairs b ! 4 + b_the_pairs b ! 5 = b_total_len b \<and>
      b_total_len b = length (b_all_strings b) \<and>
      b_all_strings b = concat (b_vl_data b))"
proof -
  have h: "1 \<le> vl_nelemts vl_hand_example" "1 \<le> vl_max_len vl_hand_example"
    by (simp_all add: vl_hand_example_def)
  have v: "2 * (vl_nelemts vl_hand_example - 1) = 4"
    by (simp add: vl_hand_example_def)
  from vl_index_invariant [OF h, of rng_id, unfolded v]
  obtain b where b: "create_dsets vl_hand_example rng_id = Inr b"
    "b_the_pairs b ! 0 = 0"
    "b_the_pairs b ! 4 + b_the_pairs b ! 5 = b_total_len b"
    "b_total_len b = length (b_all_strings b)"
    "b_all_strings b = concat (b_vl_data b)"
    by (elim exE conjE) (rule that, simp_all)
  have "create_dsets vl_hand_example rng_id =
     Inr \<lparr>b_vl_data = [[0], [0, 1], [0, 1, 2]], b_the_pairs = [0, 1, 1, 2, 3, 3],
          b_total_len = 6, b_all_strings = [0, 0, 1, 0, 1, 2]\<rparr>"
    by (simp add: create_dsets_def vl_hand_example_def vl_loop.simps vl_body_def vl_element_def
        vl_init_def rng_id_def Let_def upt_conv_Cons)
  with b show ?thesis by blast
qed

section \<open>Properties of mm2h5.c\<close>

subsection \<open>Groups, stored points and selections\<close>

declare ingest.simps [simp del]
declare verify_all.simps [simp del]
declare verify_samples.simps [simp del]

lemma first_triplet_triplets:
  "first_triplet ls = Some (t, ls1) \<Longrightarrow> triplets_of ls = t # triplets_of ls1"
  by (induction ls rule: first_triplet.induct) auto

lemma same_y_run_triplets:
  "same_y_run y ls = (ts, rest) \<Longrightarrow> triplets_of ls = ts @ triplets_of rest"
  by (induction y ls arbitrary: ts rest rule: same_y_run.induct)
     (auto split: if_splits prod.splits)

lemma same_y_run_key:
  "same_y_run y ls = (ts, rest) \<Longrightarrow> \<forall>t\<in>set ts. fst (snd t) = y"
  by (induction y ls arbitrary: ts rest rule: same_y_run.induct)
     (auto split: if_splits prod.splits)

lemma read_next_group_triplets:
  assumes "read_next_group ls = Some (g, y, rest)"
  shows "triplets_of ls = g @ triplets_of rest" and "g \<noteq> []" and "\<forall>t\<in>set g. fst (snd t) = y"
proof -
  from assms obtain x z ls1 ts where
    f: "first_triplet ls = Some ((x, y, z), ls1)" and r: "same_y_run y ls1 = (ts, rest)"
    and g: "g = (x, y, z) # ts"
    by (auto simp: read_next_group_def split: option.splits prod.splits)
  show "triplets_of ls = g @ triplets_of rest"
    using first_triplet_triplets [OF f] same_y_run_triplets [OF r] g by simp
  show "g \<noteq> []" using g by simp
  show "\<forall>t\<in>set g. fst (snd t) = y"
    using same_y_run_key [OF r] g by simp
qed

lemma process_group_result:
  assumes "process_group g s = Inr s1"
  shows "points s1 = points s @ map decrement g"
    and "writes s1 = writes s @ [(group_selection (map decrement g), map (\<lambda>t. snd (snd t)) (map decrement g))]"
    and "group_count s1 = group_count s + 1"
  using assms by (auto simp: process_group_def Let_def split: if_splits)

lemma ingest_points:
  "ingest ls s = Inr s' \<Longrightarrow> points s' = points s @ map decrement (triplets_of ls)"
proof (induction ls s rule: ingest.induct)
  case (1 ls s)
  show ?case
  proof (cases "read_next_group ls")
    case None
    then have "triplets_of ls = []"
      by (auto simp: read_next_group_def split: option.splits prod.splits)
         (induction ls rule: first_triplet.induct, auto)
    with None "1.prems" show ?thesis by (subst (asm) ingest.simps) simp
  next
    case (Some r)
    obtain g y rest where r: "r = (g, y, rest)" by (cases r)
    with Some "1.prems" obtain s1 where p: "process_group g s = Inr s1" and i: "ingest rest s1 = Inr s'"
      by (subst (asm) ingest.simps) (auto split: sum.splits)
    from "1.IH" [OF Some [unfolded r] refl refl p i]
    have "points s' = points s1 @ map decrement (triplets_of rest)" .
    then show ?thesis
      using process_group_result(1) [OF p] read_next_group_triplets(1) [OF Some [unfolded r]]
      by simp
  qed
qed

text \<open>
  The buffer \<open>points\<close> is enlarged once for each group, to twice its capacity. A group
  larger than that does not fit: after a group of one triplet the capacity is 2, and a
  following group of five is stored past the end of the four places it is given.
\<close>

lemma points_buffer_overflow_example:
  "ingest [Triplet 1 1 5, Triplet 1 2 5, Triplet 2 2 5, Triplet 3 2 5, Triplet 4 2 5,
           Triplet 5 2 5] mm_init = Inl HeapOverflow"
  by (simp add: ingest.simps read_next_group_def process_group_def mm_init_def Let_def)

lemma or_points_union:
  "or_points g sel = sel \<union> set (map (\<lambda>t. (unat (fst t), unat (fst (snd t)))) g)"
  by (induction g arbitrary: sel)
     (auto simp: H5Sselect_hyperslab_def block_points_def)

lemma group_selection_set:
  "group_selection g = set (map (\<lambda>t. (unat (fst t), unat (fst (snd t)))) g)"
  by (simp add: group_selection_def or_points_union H5Sselect_none_def)

subsection \<open>The verification loops in closed form\<close>

lemma verify_point_simps:
  "checked_at (verify_point pts rd i s) = checked_at s @ [i]"
  "mismatches (verify_point pts rd i s) =
     mismatches s + (if rd i \<noteq> snd (snd (pts ! i)) then 1 else 0)"
  "printed (verify_point pts rd i s) = printed s"
  "read_at (verify_point pts rd i s) = read_at s @ [(fst (pts ! i), fst (snd (pts ! i)))]"
  by (simp_all add: verify_point_def Let_def)

lemma verify_sample_simps:
  "checked_at (verify_sample pts rng rd i s) = checked_at s @ [rng i mod length pts]"
  "mismatches (verify_sample pts rng rd i s) =
     mismatches s + (if rd i \<noteq> snd (snd (pts ! (rng i mod length pts))) then 1 else 0)"
  "printed (verify_sample pts rng rd i s) =
     printed s @ [(fst (pts ! (rng i mod length pts)) + 1,
                   fst (snd (pts ! (rng i mod length pts))) + 1,
                   snd (snd (pts ! (rng i mod length pts))), rd i,
                   rd i = snd (snd (pts ! (rng i mod length pts))))]"
  "read_at (verify_sample pts rng rd i s) =
     read_at s @ [(fst (pts ! (rng i mod length pts)), fst (snd (pts ! (rng i mod length pts))))]"
  by (simp_all add: verify_sample_def sample_index_def Let_def)

lemma verify_all_result:
  "i \<le> length pts \<Longrightarrow>
   checked_at (verify_all pts rd i s) = checked_at s @ [i..<length pts] \<and>
   mismatches (verify_all pts rd i s) =
     mismatches s + length (filter (\<lambda>k. rd k \<noteq> snd (snd (pts ! k))) [i..<length pts]) \<and>
   printed (verify_all pts rd i s) = printed s"
proof (induction pts rd i s rule: verify_all.induct)
  case (1 pts rd i s)
  show ?case
  proof (cases "i < length pts")
    case True
    then show ?thesis
      using "1.IH" [OF True]
      by (subst (1 2 3) verify_all.simps) (simp add: verify_point_simps upt_conv_Cons)
  next
    case False
    then show ?thesis using "1.prems" by (subst (1 2 3) verify_all.simps) simp
  qed
qed

lemma verify_all_reads:
  "i \<le> length pts \<Longrightarrow>
   read_at (verify_all pts rd i s) =
     read_at s @ map (\<lambda>k. (fst (pts ! k), fst (snd (pts ! k)))) [i..<length pts]"
proof (induction pts rd i s rule: verify_all.induct)
  case (1 pts rd i s)
  show ?case
  proof (cases "i < length pts")
    case True
    then show ?thesis
      using "1.IH" [OF True]
      by (subst verify_all.simps) (simp add: verify_point_simps upt_conv_Cons)
  next
    case False
    then show ?thesis using "1.prems" by (subst verify_all.simps) simp
  qed
qed

lemma verify_samples_result:
  "i \<le> VERIFY_POINTS \<Longrightarrow>
   checked_at (verify_samples pts rng rd i s) =
     checked_at s @ map (\<lambda>k. rng k mod length pts) [i..<VERIFY_POINTS] \<and>
   mismatches (verify_samples pts rng rd i s) =
     mismatches s +
     length (filter (\<lambda>k. rd k \<noteq> snd (snd (pts ! (rng k mod length pts)))) [i..<VERIFY_POINTS]) \<and>
   printed (verify_samples pts rng rd i s) =
     printed s @ map (\<lambda>k. (fst (pts ! (rng k mod length pts)) + 1,
                             fst (snd (pts ! (rng k mod length pts))) + 1,
                             snd (snd (pts ! (rng k mod length pts))), rd k,
                             rd k = snd (snd (pts ! (rng k mod length pts))))) [i..<VERIFY_POINTS]"
proof (induction pts rng rd i s rule: verify_samples.induct)
  case (1 pts rng rd i s)
  show ?case
  proof (cases "i < VERIFY_POINTS")
    case True
    then show ?thesis
      using "1.IH" [OF True]
      by (subst (1 2 3) verify_samples.simps) (simp add: verify_sample_simps upt_conv_Cons)
  next
    case False
    then show ?thesis using "1.prems" by (subst (1 2 3) verify_samples.simps) simp
  qed
qed

lemma verify_samples_reads:
  "i \<le> VERIFY_POINTS \<Longrightarrow>
   read_at (verify_samples pts rng rd i s) =
     read_at s @ map (\<lambda>k. (fst (pts ! (rng k mod length pts)),
                            fst (snd (pts ! (rng k mod length pts))))) [i..<VERIFY_POINTS]"
proof (induction pts rng rd i s rule: verify_samples.induct)
  case (1 pts rng rd i s)
  show ?case
  proof (cases "i < VERIFY_POINTS")
    case True
    then show ?thesis
      using "1.IH" [OF True]
      by (subst verify_samples.simps) (simp add: verify_sample_simps upt_conv_Cons)
  next
    case False
    then show ?thesis using "1.prems" by (subst verify_samples.simps) simp
  qed
qed

lemma verification_all:
  assumes "length pts \<le> 10000"
  shows "check_count (verification pts rng rd) = length pts"
    and "sampled (verification pts rng rd) = [0..<length pts]"
    and "mismatch_count (verification pts rng rd) =
           length (filter (\<lambda>k. rd k \<noteq> snd (snd (pts ! k))) [0..<length pts])"
    and "sample_lines (verification pts rng rd) = []"
    and "read_starts (verification pts rng rd) =
           map (\<lambda>k. (fst (pts ! k), fst (snd (pts ! k)))) [0..<length pts]"
  using assms verify_all_result [of 0 pts rd verify_init] verify_all_reads [of 0 pts rd verify_init]
  by (simp_all add: verification_def Let_def VERIFY_ALL_LIMIT_def verify_init_def)

lemma verification_samples:
  assumes "10000 < length pts"
  shows "check_count (verification pts rng rd) = 10"
    and "sampled (verification pts rng rd) = map (\<lambda>k. rng k mod length pts) [0..<10]"
    and "mismatch_count (verification pts rng rd) =
           length (filter (\<lambda>k. rd k \<noteq> snd (snd (pts ! (rng k mod length pts)))) [0..<10])"
    and "sample_lines (verification pts rng rd) =
           map (\<lambda>k. (fst (pts ! (rng k mod length pts)) + 1,
                      fst (snd (pts ! (rng k mod length pts))) + 1,
                      snd (snd (pts ! (rng k mod length pts))), rd k,
                      rd k = snd (snd (pts ! (rng k mod length pts))))) [0..<10]"
    and "read_starts (verification pts rng rd) =
           map (\<lambda>k. (fst (pts ! (rng k mod length pts)),
                      fst (snd (pts ! (rng k mod length pts))))) [0..<10]"
  using assms verify_samples_result [of 0 pts rng rd verify_init]
    verify_samples_reads [of 0 pts rng rd verify_init]
  by (simp_all add: verification_def Let_def VERIFY_ALL_LIMIT_def VERIFY_POINTS_def verify_init_def)

lemma verification_pct:
  "pct (verification pts rng rd) =
     (if check_count (verification pts rng rd) \<noteq> 0
      then 100 * (real (check_count (verification pts rng rd)) -
                  real (mismatch_count (verification pts rng rd))) /
           real (check_count (verification pts rng rd))
      else 0)"
  by (simp add: verification_def Let_def)

lemma main_reaches_verification:
  assumes "mm2h5_main args rng rd = Inr oc"
  shows "\<exists>ls X Y rest s. txt_file args = Some ls \<and> read_header ls 0 0 = (X, Y, rest) \<and>
           X \<noteq> 0 \<and> Y \<noteq> 0 \<and> ingest rest mm_init = Inr s \<and>
           oc = \<lparr>exit_code = EXIT_SUCCESS, stored = points s, written = writes s,
                  summary = verification (points s) rng rd\<rparr>"
  using assms
  by (auto simp: mm2h5_main_def Let_def split: if_splits option.splits prod.splits sum.splits)

lemma or_selected_point:
  "pt \<in> sel \<Longrightarrow> H5Sselect_hyperslab H5S_SELECT_OR pt (1, 1) sel = sel"
  by (cases pt) (auto simp: H5Sselect_hyperslab_def block_points_def)

lemma zero_based_inj: "inj (\<lambda>ab. (unat (fst ab - 1), unat (snd ab - 1)))" for ab :: "u64 \<times> u64"
  by (rule injI) (simp add: prod_eq_iff word_unat_eq_iff [symmetric])

lemma group_selection_decrement:
  "group_selection (map decrement g) = (\<lambda>t. (unat (fst t - 1), unat (fst (snd t) - 1))) ` set g"
  by (auto simp: group_selection_set decrement_def image_iff)

lemma card_group_selection:
  "card (group_selection (map decrement g)) = card ((\<lambda>t. (fst t, fst (snd t))) ` set g)"
proof -
  have "group_selection (map decrement g) =
        (\<lambda>ab. (unat (fst ab - 1), unat (snd ab - 1))) ` ((\<lambda>t. (fst t, fst (snd t))) ` set g)"
    by (simp add: group_selection_decrement image_image)
  then show ?thesis
    by (simp only: card_image [OF inj_on_subset [OF zero_based_inj subset_UNIV]])
qed

lemma dedup_run:
  "mm2h5_main dedup_args rng rd =
     Inr \<lparr>exit_code = EXIT_SUCCESS,
          stored = [(- 1, 4, 9), (- 1, 4, 9), (0, 4, 3)],
          written = [({(2 ^ 64 - 1, 4), (0, 4)}, [9, 9, 3])],
          summary = verification [(- 1, 4, 9), (- 1, 4, 9), (0, 4, 3)] rng rd\<rparr>"
  by (simp add: mm2h5_main_def dedup_args_def ingest.simps read_next_group_def
      process_group_def mm_init_def decrement_def group_selection_set Let_def insert_commute
      unsigned_minus_1_eq_mask mask_eq_exp_minus_1)

subsection \<open>Claim C4: the selection of a group is a union\<close>

text \<open>
  C4. Adding a one-element block that is already selected with \<open>H5S_SELECT_OR\<close> leaves
  the selection as it is. For every group, the selection \<open>main\<close> hands to \<open>H5Dwrite\<close> is
  the set of the group's coordinates (each decremented by one), and its number of points
  is the number of distinct coordinate pairs \<open>(a, b)\<close> of the group. In particular, on a
  file whose group with the key 5 is \<open>(0,5,9), (0,5,9), (1,5,3)\<close>, the one selection
  written has exactly 2 points, whatever \<open>rand()\<close> and the reads return.
\<close>

theorem union_dedup:
  "(pt \<in> sel \<longrightarrow> H5Sselect_hyperslab H5S_SELECT_OR pt (1, 1) sel = sel) \<and>
   (\<forall>s1. process_group g s = Inr s1 \<longrightarrow>
      (\<exists>dspace buf. writes s1 = writes s @ [(dspace, buf)] \<and>
         dspace = (\<lambda>t. (unat (fst t - 1), unat (fst (snd t) - 1))) ` set g \<and>
         H5Sget_select_npoints dspace = card ((\<lambda>t. (fst t, fst (snd t))) ` set g))) \<and>
   (case mm2h5_main dedup_args rng rd of
      Inl f \<Rightarrow> []
    | Inr oc \<Rightarrow> map (\<lambda>w. H5Sget_select_npoints (fst w)) (written oc)) = [2]"
proof (intro conjI allI impI)
  assume "pt \<in> sel"
  then show "H5Sselect_hyperslab H5S_SELECT_OR pt (1, 1) sel = sel" by (rule or_selected_point)
next
  fix s1 assume "process_group g s = Inr s1"
  from process_group_result(2) [OF this]
  show "\<exists>dspace buf. writes s1 = writes s @ [(dspace, buf)] \<and>
         dspace = (\<lambda>t. (unat (fst t - 1), unat (fst (snd t) - 1))) ` set g \<and>
         H5Sget_select_npoints dspace = card ((\<lambda>t. (fst t, fst (snd t))) ` set g)"
    using card_group_selection [of g]
    by (simp add: group_selection_decrement H5Sget_select_npoints_def)
next
  show "(case mm2h5_main dedup_args rng rd of
      Inl f \<Rightarrow> []
    | Inr oc \<Rightarrow> map (\<lambda>w. H5Sget_select_npoints (fst w)) (written oc)) = [2]"
    by (simp add: dedup_run H5Sget_select_npoints_def)
qed

theorem union_dedup_witness:
  "H5Sselect_hyperslab H5S_SELECT_OR (0, 4) (1, 1) {(0, 4)} = {(0, 4)} \<and>
   (\<exists>s1 dspace buf. process_group [(0, 5, 9), (0, 5, 9), (1, 5, 3)] mm_init = Inr s1 \<and>
      writes s1 = [(dspace, buf)] \<and> H5Sget_select_npoints dspace = 2)"
proof -
  note t = union_dedup [of "(0, 4)" "{(0, 4)}" "[(0, 5, 9), (0, 5, 9), (1, 5, 3)]" mm_init]
  have a: "H5Sselect_hyperslab H5S_SELECT_OR (0, 4) (1, 1) {(0, 4)} = {(0, 4)}"
    using t by simp
  have "\<exists>s1. process_group [(0, 5, 9), (0, 5, 9), (1, 5, 3)] mm_init = Inr s1"
    by (simp add: process_group_def mm_init_def Let_def)
  then obtain s1 where p: "process_group [(0, 5, 9), (0, 5, 9), (1, 5, 3)] mm_init = Inr s1" ..
  have c: "card ((\<lambda>t. (fst t, fst (snd t))) ` set [(0, 5, 9), (0, 5, 9), (1::u64, 5::u64, 3::u64)]) = 2"
    by simp
  from t p obtain dspace buf where
    "writes s1 = writes mm_init @ [(dspace, buf)]"
    "H5Sget_select_npoints dspace =
       card ((\<lambda>t. (fst t, fst (snd t))) ` set [(0, 5, 9), (0, 5, 9), (1::u64, 5::u64, 3::u64)])"
    by blast
  then have "writes s1 = [(dspace, buf)] \<and> H5Sget_select_npoints dspace = 2"
    by (simp add: c mm_init_def)
  with a p show ?thesis by blast
qed

subsection \<open>What a whole run stores and writes\<close>

lemma ingest_writes:
  "ingest ls s = Inr s' \<Longrightarrow>
   \<Union> (fst ` set (writes s')) =
     \<Union> (fst ` set (writes s)) \<union>
     (\<lambda>t. (unat (fst t - 1), unat (fst (snd t) - 1))) ` set (triplets_of ls) \<and>
   concat (map snd (writes s')) =
     concat (map snd (writes s)) @ map (\<lambda>t. snd (snd t)) (triplets_of ls)"
proof (induction ls s rule: ingest.induct)
  case (1 ls s)
  show ?case
  proof (cases "read_next_group ls")
    case None
    then have "first_triplet ls = None"
      by (auto simp: read_next_group_def split: option.splits prod.splits)
    then have "triplets_of ls = []"
      by (induction ls rule: first_triplet.induct) auto
    with None "1.prems" show ?thesis by (subst (asm) ingest.simps) simp
  next
    case (Some r)
    obtain g y rest where r: "r = (g, y, rest)" by (cases r)
    with Some "1.prems" obtain s1 where p: "process_group g s = Inr s1" and i: "ingest rest s1 = Inr s'"
      by (subst (asm) ingest.simps) (auto split: sum.splits)
    note ih = "1.IH" [OF Some [unfolded r] refl refl p i]
    note w = process_group_result(2) [OF p]
    note t = read_next_group_triplets(1) [OF Some [unfolded r]]
    have c: "map (\<lambda>t. snd (snd t)) (map decrement g) = map (\<lambda>t. snd (snd t)) g"
      by (simp add: decrement_def)
    have w1: "\<Union> (fst ` set (writes s1)) =
        \<Union> (fst ` set (writes s)) \<union> (\<lambda>t. (unat (fst t - 1), unat (fst (snd t) - 1))) ` set g"
      unfolding w by (simp add: group_selection_decrement Un_commute)
    have w2: "concat (map snd (writes s1)) = concat (map snd (writes s)) @ map (\<lambda>t. snd (snd t)) g"
      unfolding w c by simp
    show ?thesis
      using ih unfolding w1 w2 t by (simp add: image_Un Un_assoc)
  qed
qed

lemma unat_minus_one_nonzero: "1 \<le> w \<Longrightarrow> unat (w - 1) = unat w - 1" for w :: u64
proof -
  assume "1 \<le> w"
  then have "w \<noteq> 0" by auto
  then show ?thesis by (rule unat_minus_one)
qed

lemma triplets_of_replicate: "triplets_of (replicate n (Triplet a b c)) = replicate n (a, b, c)"
  by (induction n) simp_all

lemma same_y_run_replicate:
  "same_y_run b (replicate n (Triplet a b c)) = (replicate n (a, b, c), [])"
  by (induction n) simp_all

lemma read_next_group_replicate:
  "read_next_group (replicate (Suc n) (Triplet a b c)) = Some (replicate (Suc n) (a, b, c), b, [])"
  by (simp add: read_next_group_def same_y_run_replicate)

lemma ingest_replicate:
  "ingest (replicate (Suc n) (Triplet a b c)) mm_init =
     Inr \<lparr>points = replicate (Suc n) (a - 1, b - 1, c), cap_points = 2 * Suc n, group_count = 1,
          writes = [({(unat (a - 1), unat (b - 1))}, replicate (Suc n) c)]\<rparr>"
proof -
  have "read_next_group [] = None" by (simp add: read_next_group_def)
  then have e: "ingest [] s = Inr s" for s by (subst ingest.simps) simp
  have d: "map decrement (replicate (Suc n) (a, b, c)) = replicate (Suc n) (a - 1, b - 1, c)"
    by (simp add: decrement_def)
  have g: "group_selection (replicate (Suc n) (a - 1, b - 1, c)) = {(unat (a - 1), unat (b - 1))}"
    by (auto simp: group_selection_set)
  have m: "map (\<lambda>t. snd (snd t)) (replicate (Suc n) (a - 1, b - 1, c)) = replicate (Suc n) c"
    by simp
  have "process_group (replicate (Suc n) (a, b, c)) mm_init =
     Inr \<lparr>points = replicate (Suc n) (a - 1, b - 1, c), cap_points = 2 * Suc n, group_count = 1,
          writes = [({(unat (a - 1), unat (b - 1))}, replicate (Suc n) c)]\<rparr>"
    unfolding process_group_def Let_def d g m by (simp add: mm_init_def del: replicate.simps)
  then show ?thesis
    by (subst ingest.simps) (simp only: read_next_group_replicate option.case prod.case sum.case e)
qed

lemma big_run:
  "mm2h5_main big_args rng rd =
     Inr \<lparr>exit_code = EXIT_SUCCESS, stored = replicate 10001 (2, 1, 7),
          written = [({(2, 1)}, replicate 10001 7)],
          summary = verification (replicate 10001 (2, 1, 7)) rng rd\<rparr>"
proof -
  have "ingest (replicate 10001 (Triplet 3 2 7)) mm_init =
     Inr \<lparr>points = replicate 10001 (2, 1, 7), cap_points = 20002, group_count = 1,
          writes = [({(2, 1)}, replicate 10001 7)]\<rparr>"
  proof -
    have n: "Suc 10000 = 10001" by simp
    show ?thesis using ingest_replicate [of 10000 3 2 7, unfolded n] by simp
  qed
  then show ?thesis
    by (simp add: mm2h5_main_def big_args_def)
qed

subsection \<open>The samples are not uniform\<close>

lemma count_residue:
  "i < n \<Longrightarrow> card {r. r < N \<and> r mod n = i} = N div n + (if i < N mod n then 1 else 0)"
  for i n N :: nat
proof (induction N)
  case 0
  then show ?case by simp
next
  case (Suc N)
  have fin: "finite {r. r < N \<and> r mod n = i}" by simp
  have split: "{r. r < Suc N \<and> r mod n = i} =
      (if N mod n = i then insert N {r. r < N \<and> r mod n = i} else {r. r < N \<and> r mod n = i})"
    by (auto simp: less_Suc_eq)
  have "card {r. r < Suc N \<and> r mod n = i} =
      card {r. r < N \<and> r mod n = i} + (if N mod n = i then 1 else 0)"
    unfolding split using fin by simp
  also have "\<dots> = N div n + (if i < N mod n then 1 else 0) + (if N mod n = i then 1 else 0)"
    using Suc by simp
  also have "\<dots> = Suc N div n + (if i < Suc N mod n then 1 else 0)"
  proof (cases "Suc (N mod n) = n")
    case True
    then have "Suc N mod n = 0" "Suc N div n = Suc (N div n)"
      by (simp_all add: mod_Suc div_Suc)
    then show ?thesis using True Suc.prems by auto
  next
    case False
    then have "Suc N mod n = Suc (N mod n)" "Suc N div n = N div n"
      by (simp_all add: mod_Suc div_Suc)
    then show ?thesis by auto
  qed
  finally show ?case .
qed

lemma draws_of_count:
  "idx < total_points \<Longrightarrow>
   draws_of rand_max total_points idx =
     Suc rand_max div total_points + (if idx < Suc rand_max mod total_points then 1 else 0)"
proof -
  assume i: "idx < total_points"
  have "{r. r \<le> rand_max \<and> sample_index r total_points = idx} =
        {r. r < Suc rand_max \<and> r mod total_points = idx}"
    by (auto simp: sample_index_def)
  then show ?thesis unfolding draws_of_def by (simp only: count_residue [OF i])
qed

subsection \<open>Claim C5: the verification threshold\<close>

text \<open>
  C5, as the code has it. The summary of every run that reaches the verification is that
  of the points it stored. If there are at most 10000 stored points, the verifier checks
  every index \<open>0, 1, ..., total_points - 1\<close>: read number \<open>i\<close> is made at the coordinates of
  point \<open>i\<close> and its value is compared with the value stored for that point, the
  mismatches being counted; it reports \<open>total_points\<close> checked. If there are more, it
  checks exactly 10 indices, the \<open>k\<close>-th being \<open>rand() % total_points\<close> of the \<open>k\<close>-th call
  (each draw on its own, so an index may come again), all of them valid indices; read
  number \<open>k\<close> is made at the coordinates of the point of that index and compared with its
  stored value; it reports 10 checked.
\<close>

theorem verification_threshold:
  "(\<forall>oc. mm2h5_main args rng rd = Inr oc \<longrightarrow> summary oc = verification (stored oc) rng rd) \<and>
   (length pts \<le> 10000 \<longrightarrow>
      check_count (verification pts rng rd) = length pts \<and>
      sampled (verification pts rng rd) = [0..<length pts] \<and>
      read_starts (verification pts rng rd) =
        map (\<lambda>i. (fst (pts ! i), fst (snd (pts ! i)))) [0..<length pts] \<and>
      mismatch_count (verification pts rng rd) =
        length (filter (\<lambda>i. rd i \<noteq> snd (snd (pts ! i))) [0..<length pts])) \<and>
   (10000 < length pts \<longrightarrow>
      check_count (verification pts rng rd) = 10 \<and>
      sampled (verification pts rng rd) = map (\<lambda>k. rng k mod length pts) [0..<10] \<and>
      list_all (\<lambda>i. i < length pts) (sampled (verification pts rng rd)) \<and>
      read_starts (verification pts rng rd) =
        map (\<lambda>k. (fst (pts ! (rng k mod length pts)), fst (snd (pts ! (rng k mod length pts)))))
          [0..<10] \<and>
      mismatch_count (verification pts rng rd) =
        length (filter (\<lambda>k. rd k \<noteq> snd (snd (pts ! (rng k mod length pts)))) [0..<10]))"
proof (intro conjI allI impI)
  fix oc assume "mm2h5_main args rng rd = Inr oc"
  from main_reaches_verification [OF this]
  show "summary oc = verification (stored oc) rng rd" by auto
next
  assume a: "length pts \<le> 10000"
  show "check_count (verification pts rng rd) = length pts"
    and "sampled (verification pts rng rd) = [0..<length pts]"
    and "read_starts (verification pts rng rd) =
        map (\<lambda>i. (fst (pts ! i), fst (snd (pts ! i)))) [0..<length pts]"
    and "mismatch_count (verification pts rng rd) =
        length (filter (\<lambda>i. rd i \<noteq> snd (snd (pts ! i))) [0..<length pts])"
    by (rule verification_all [OF a])+
next
  assume b: "10000 < length pts"
  show "check_count (verification pts rng rd) = 10"
    and s: "sampled (verification pts rng rd) = map (\<lambda>k. rng k mod length pts) [0..<10]"
    and "read_starts (verification pts rng rd) =
        map (\<lambda>k. (fst (pts ! (rng k mod length pts)), fst (snd (pts ! (rng k mod length pts)))))
          [0..<10]"
    and "mismatch_count (verification pts rng rd) =
        length (filter (\<lambda>k. rd k \<noteq> snd (snd (pts ! (rng k mod length pts)))) [0..<10])"
    by (rule verification_samples [OF b])+
  from b have "0 < length pts" by linarith
  then show "list_all (\<lambda>i. i < length pts) (sampled (verification pts rng rd))"
    unfolding s by (simp add: list_all_iff)
qed

theorem verification_threshold_witness:
  "(\<exists>oc. mm2h5_main dedup_args rng_id rd_zero = Inr oc \<and> check_count (summary oc) = 3 \<and>
      sampled (summary oc) = [0, 1, 2] \<and>
      read_starts (summary oc) = [(- 1, 4), (- 1, 4), (0, 4)] \<and>
      mismatch_count (summary oc) = 3) \<and>
   check_count (verification (replicate 10000 (0, 0, 0)) rng_id rd_zero) = 10000 \<and>
   mismatch_count (verification (replicate 10000 (0, 0, 0)) rng_id rd_zero) = 0 \<and>
   check_count (verification (replicate 10001 (0, 0, 0)) rng_id rd_zero) = 10 \<and>
   sampled (verification (replicate 10001 (0, 0, 0)) rng_id rd_zero) = [0, 1, 2, 3, 4, 5, 6, 7, 8, 9] \<and>
   mismatch_count (verification (replicate 10001 (0, 0, 0)) rng_id rd_zero) = 0"
proof -
  note t1 = verification_threshold [of dedup_args rng_id rd_zero "[(- 1, 4, 9), (- 1, 4, 9), (0, 4, 3)]"]
  note t2 = verification_threshold [of dedup_args rng_id rd_zero "replicate 10000 (0, 0, 0)"]
  note t3 = verification_threshold [of dedup_args rng_id rd_zero "replicate 10001 (0, 0, 0)"]
  obtain oc where oc: "mm2h5_main dedup_args rng_id rd_zero = Inr oc"
    and st: "stored oc = [(- 1, 4, 9), (- 1, 4, 9), (0, 4, 3)]"
    by (simp add: dedup_run)
  from t1 oc have "summary oc = verification (stored oc) rng_id rd_zero" by blast
  moreover from t1 have "check_count (verification [(- 1, 4, 9), (- 1, 4, 9), (0, 4, 3)] rng_id rd_zero) = 3"
    "sampled (verification [(- 1, 4, 9), (- 1, 4, 9), (0, 4, 3)] rng_id rd_zero) = [0, 1, 2]"
    "read_starts (verification [(- 1, 4, 9), (- 1, 4, 9), (0, 4, 3)] rng_id rd_zero) =
       [(- 1, 4), (- 1, 4), (0, 4)]"
    "mismatch_count (verification [(- 1, 4, 9), (- 1, 4, 9), (0, 4, 3)] rng_id rd_zero) = 3"
    by (simp_all add: upt_conv_Cons rd_zero_def)
  ultimately have a: "check_count (summary oc) = 3 \<and> sampled (summary oc) = [0, 1, 2] \<and>
      read_starts (summary oc) = [(- 1, 4), (- 1, 4), (0, 4)] \<and> mismatch_count (summary oc) = 3"
    by (simp add: st)
  have z: "filter (\<lambda>i. rd_zero i \<noteq> snd (snd (replicate n (0, 0, 0) ! f i))) [0..<m] = []"
    if "\<forall>i<m. f i < n" for n m and f :: "nat \<Rightarrow> nat"
    using that by (simp add: filter_empty_conv rd_zero_def)
  have z0: "filter (\<lambda>i. rd_zero i \<noteq> snd (snd (replicate 10000 (0, 0, 0) ! i))) [0..<10000] = []"
    by (rule z) simp
  have z1: "filter (\<lambda>k. rd_zero k \<noteq> snd (snd (replicate 10001 (0, 0, 0) ! (rng_id k mod 10001))))
      [0..<10] = []"
    by (rule z) simp
  have l0: "length (replicate 10000 (0::u64, 0::u64, 0::u64)) \<le> 10000"
    and l1: "10000 < length (replicate 10001 (0::u64, 0::u64, 0::u64))"
    by simp_all
  note u2 = t2 [THEN conjunct2, THEN conjunct1, THEN mp, OF l0]
  note u3 = t3 [THEN conjunct2, THEN conjunct2, THEN mp, OF l1]
  have b: "check_count (verification (replicate 10000 (0, 0, 0)) rng_id rd_zero) = 10000"
    "mismatch_count (verification (replicate 10000 (0, 0, 0)) rng_id rd_zero) = 0"
    using u2 [THEN conjunct1] u2 [THEN conjunct2, THEN conjunct2, THEN conjunct2]
    by (simp_all only: length_replicate z0 list.size)
  have c: "check_count (verification (replicate 10001 (0, 0, 0)) rng_id rd_zero) = 10"
    "sampled (verification (replicate 10001 (0, 0, 0)) rng_id rd_zero) =
       map (\<lambda>k. rng_id k mod 10001) [0..<10]"
    "mismatch_count (verification (replicate 10001 (0, 0, 0)) rng_id rd_zero) = 0"
    using u3 [THEN conjunct1] u3 [THEN conjunct2, THEN conjunct1]
      u3 [THEN conjunct2, THEN conjunct2, THEN conjunct2, THEN conjunct2]
    by (simp_all only: length_replicate z1 list.size)
  have d: "map (\<lambda>k. rng_id k mod 10001) [0..<10] = [0, 1, 2, 3, 4, 5, 6, 7, 8, 9]"
    by (simp add: upt_conv_Cons rng_id_def)
  from a b c d oc show ?thesis by (simp only:) blast
qed

text \<open>
  The claim as written says that the 10 indices are drawn uniformly. The index is the
  remainder \<open>rand() % total_points\<close>, and the values \<open>0 .. RAND_MAX\<close> of \<open>rand()\<close> do not
  spread evenly over the indices unless \<open>total_points\<close> divides \<open>RAND_MAX + 1\<close>: with 10001
  stored points, index 0 is the sample for 214727 values of \<open>rand()\<close> and index 10000 for
  214726 when \<open>RAND_MAX\<close> is 2147483647 (glibc), and for 4 against 3 when it is 32767, the
  least value C allows. So even a \<open>rand()\<close> that is uniform does not make the samples
  uniform.
\<close>

theorem verification_threshold_counterexample:
  "draws_of 2147483647 10001 0 = 214727 \<and> draws_of 2147483647 10001 10000 = 214726 \<and>
   draws_of 32767 10001 0 = 4 \<and> draws_of 32767 10001 10000 = 3"
  by (simp add: draws_of_count)

lemma verification_checked:
  "length (sampled (verification pts rng rd)) = check_count (verification pts rng rd) \<and>
   check_count (verification pts rng rd) = (if length pts \<le> 10000 then length pts else 10) \<and>
   mismatch_count (verification pts rng rd) =
     length (filter (\<lambda>k. rd k \<noteq> snd (snd (pts ! (sampled (verification pts rng rd) ! k))))
               [0..<check_count (verification pts rng rd)])"
proof (cases "length pts \<le> 10000")
  case True
  have "filter (\<lambda>k. rd k \<noteq> snd (snd (pts ! ([0..<length pts] ! k)))) [0..<length pts] =
        filter (\<lambda>k. rd k \<noteq> snd (snd (pts ! k))) [0..<length pts]"
    by (rule filter_cong) simp_all
  then show ?thesis using True by (simp add: verification_all)
next
  case False
  then have b: "10000 < length pts" by simp
  have "filter (\<lambda>k. rd k \<noteq> snd (snd (pts ! (map (\<lambda>k. rng k mod length pts) [0..<10] ! k)))) [0..<10] =
        filter (\<lambda>k. rd k \<noteq> snd (snd (pts ! (rng k mod length pts)))) [0..<10]"
    by (rule filter_cong) simp_all
  then show ?thesis using False by (simp add: verification_samples [OF b])
qed

lemma length_filter_upt: "length (filter P [0..<n]) \<le> n"
  using length_filter_le [of P "[0..<n]"] by simp

subsection \<open>Claim C9: a mismatch is reported, not fatal\<close>

text \<open>
  C9. Take any run that reaches the verification (valid arguments and header, the
  stream ingested). Whatever values the reads deliver, \<open>main\<close> returns \<open>EXIT_SUCCESS\<close>
  with the same stored points; the verification has checked all the points it chose
  (every stored point, or 10 samples), one read for each; the mismatch counter is the
  number of those reads that differ from the expected value, at most the number checked;
  and the match rate of the summary is \<open>100 * (checked - mismatches) / checked\<close>, or 0 when
  nothing was checked. The match rate is the exact quotient; the source computes it in
  \<open>double\<close>.
\<close>

theorem mismatches_not_fatal:
  assumes "mm2h5_main args rng rd0 = Inr oc0"
  shows "\<exists>oc. mm2h5_main args rng rd = Inr oc \<and>
     exit_code oc = EXIT_SUCCESS \<and>
     stored oc = stored oc0 \<and>
     check_count (summary oc) = (if length (stored oc) \<le> 10000 then length (stored oc) else 10) \<and>
     length (sampled (summary oc)) = check_count (summary oc) \<and>
     mismatch_count (summary oc) =
       length (filter (\<lambda>k. rd k \<noteq> snd (snd (stored oc ! (sampled (summary oc) ! k))))
                 [0..<check_count (summary oc)]) \<and>
     mismatch_count (summary oc) \<le> check_count (summary oc) \<and>
     pct (summary oc) =
       (if check_count (summary oc) \<noteq> 0
        then 100 * (real (check_count (summary oc)) - real (mismatch_count (summary oc))) /
             real (check_count (summary oc))
        else 0)"
proof -
  from main_reaches_verification [OF assms] obtain ls X Y rest s where
    r: "txt_file args = Some ls" "read_header ls 0 0 = (X, Y, rest)" "X \<noteq> 0" "Y \<noteq> 0"
       "ingest rest mm_init = Inr s"
    and oc0: "oc0 = \<lparr>exit_code = EXIT_SUCCESS, stored = points s, written = writes s,
                  summary = verification (points s) rng rd0\<rparr>"
    by blast
  have pre: "\<not> argc args < 5" "\<not> (gzip_level args < 0 \<or> gzip_level args > 9)" "h5_created args"
    using assms r by (auto simp: mm2h5_main_def Let_def split: if_splits)
  define oc where "oc = \<lparr>exit_code = EXIT_SUCCESS, stored = points s, written = writes s,
                  summary = verification (points s) rng rd\<rparr>"
  have run: "mm2h5_main args rng rd = Inr oc"
    using pre r by (simp add: mm2h5_main_def oc_def)
  note v = verification_checked [of "points s" rng rd]
  have le: "mismatch_count (verification (points s) rng rd) \<le> check_count (verification (points s) rng rd)"
    by (subst conjunct2 [OF conjunct2 [OF v]]) (rule length_filter_upt)
  have st: "stored oc = points s" "summary oc = verification (points s) rng rd"
    "exit_code oc = EXIT_SUCCESS" "stored oc0 = points s"
    by (simp_all add: oc_def oc0)
  show ?thesis
    apply (rule exI [of _ oc])
    unfolding st
    using run v le verification_pct [of "points s" rng rd]
    apply (intro conjI)
    apply (simp_all only: refl)
    done
qed

theorem mismatches_not_fatal_witness:
  "\<exists>oc. mm2h5_main dedup_args rng_zero rd_zero = Inr oc \<and> exit_code oc = EXIT_SUCCESS \<and>
     check_count (summary oc) = 3 \<and> mismatch_count (summary oc) = 3 \<and> pct (summary oc) = 0"
proof -
  have run: "mm2h5_main dedup_args rng_zero rd_zero =
     Inr \<lparr>exit_code = EXIT_SUCCESS,
          stored = [(- 1, 4, 9), (- 1, 4, 9), (0, 4, 3)],
          written = [({(2 ^ 64 - 1, 4), (0, 4)}, [9, 9, 3])],
          summary = verification [(- 1, 4, 9), (- 1, 4, 9), (0, 4, 3)] rng_zero rd_zero\<rparr>"
    by (rule dedup_run)
  from mismatches_not_fatal [OF run, of rd_zero]
  obtain oc where oc: "mm2h5_main dedup_args rng_zero rd_zero = Inr oc"
    "exit_code oc = EXIT_SUCCESS"
    "check_count (summary oc) = (if length (stored oc) \<le> 10000 then length (stored oc) else 10)"
    "mismatch_count (summary oc) =
       length (filter (\<lambda>k. rd_zero k \<noteq> snd (snd (stored oc ! (sampled (summary oc) ! k))))
                 [0..<check_count (summary oc)])"
    "pct (summary oc) =
       (if check_count (summary oc) \<noteq> 0
        then 100 * (real (check_count (summary oc)) - real (mismatch_count (summary oc))) /
             real (check_count (summary oc))
        else 0)"
    by (elim exE conjE) (rule that)
  from oc(1) have "oc = \<lparr>exit_code = EXIT_SUCCESS,
          stored = [(- 1, 4, 9), (- 1, 4, 9), (0, 4, 3)],
          written = [({(2 ^ 64 - 1, 4), (0, 4)}, [9, 9, 3])],
          summary = verification [(- 1, 4, 9), (- 1, 4, 9), (0, 4, 3)] rng_zero rd_zero\<rparr>"
    unfolding run by (simp only: sum.inject)
  then have st: "stored oc = [(- 1, 4, 9), (- 1, 4, 9), (0, 4, 3)]"
    and su: "summary oc = verification [(- 1, 4, 9), (- 1, 4, 9), (0, 4, 3)] rng_zero rd_zero"
    by simp_all
  have sa: "sampled (summary oc) = [0, 1, 2]"
    unfolding su by (simp add: verification_all upt_conv_Cons)
  have cc: "check_count (summary oc) = 3" using oc(3) by (simp add: st)
  have mc: "mismatch_count (summary oc) = 3"
    using oc(4) unfolding cc st sa by (simp add: upt_conv_Cons rd_zero_def)
  have "pct (summary oc) = 0" using oc(5) unfolding cc mc by simp
  with oc(1,2) cc mc show ?thesis by blast
qed

subsection \<open>Claim C10: 1-based triplets, 0-based coordinates\<close>

text \<open>
  C10. In every run that reaches the verification, with \<open>rest\<close> the lines after the
  header: the stored verification points are the triplets of \<open>rest\<close> with \<open>a\<close> and \<open>b\<close>
  each decremented by one; the coordinates selected for the writes are exactly these
  decremented pairs, and the values written are the \<open>c\<close> of the triplets in order; for a
  triplet with \<open>a \<ge> 1\<close> and \<open>b \<ge> 1\<close> the decrement does not wrap, so the coordinate is the
  0-based \<open>(a - 1, b - 1)\<close>; and when more than 10000 points are stored, each of the 10
  lines printed for the samples shows the coordinates of the sampled triplet as they
  stood in the file (decremented, then incremented by one for printing), with the
  expected value, the value read and whether they agree.
\<close>

theorem one_based_coordinates:
  assumes run: "mm2h5_main args rng rd = Inr oc"
    and tf: "txt_file args = Some ls"
    and header: "read_header ls 0 0 = (X, Y, rest)"
  shows
   "stored oc = map (\<lambda>t. (fst t - 1, fst (snd t) - 1, snd (snd t))) (triplets_of rest) \<and>
    \<Union> (fst ` set (written oc)) =
      (\<lambda>t. (unat (fst t - 1), unat (fst (snd t) - 1))) ` set (triplets_of rest) \<and>
    concat (map snd (written oc)) = map (\<lambda>t. snd (snd t)) (triplets_of rest) \<and>
    (\<forall>t\<in>set (triplets_of rest). 1 \<le> fst t \<and> 1 \<le> fst (snd t) \<longrightarrow>
       unat (fst t - 1) = unat (fst t) - 1 \<and> unat (fst (snd t) - 1) = unat (fst (snd t)) - 1) \<and>
    (10000 < length (triplets_of rest) \<longrightarrow>
       sample_lines (summary oc) =
         map (\<lambda>k. let t = triplets_of rest ! (rng k mod length (triplets_of rest))
                   in (fst t, fst (snd t), snd (snd t), rd k, rd k = snd (snd t))) [0..<10])"
proof -
  let ?T = "triplets_of rest"
  from main_reaches_verification [OF run] tf header obtain s where
    ing: "ingest rest mm_init = Inr s"
    and oc: "oc = \<lparr>exit_code = EXIT_SUCCESS, stored = points s, written = writes s,
                  summary = verification (points s) rng rd\<rparr>"
    by auto
  have pts: "points s = map decrement ?T"
    using ingest_points [OF ing] by (simp add: mm_init_def)
  have dec: "decrement = (\<lambda>t. (fst t - 1, fst (snd t) - 1, snd (snd t)))"
    by (rule ext) (simp add: decrement_def)
  have a: "stored oc = map (\<lambda>t. (fst t - 1, fst (snd t) - 1, snd (snd t))) ?T"
    by (simp add: oc pts dec)
  have b: "\<Union> (fst ` set (written oc)) = (\<lambda>t. (unat (fst t - 1), unat (fst (snd t) - 1))) ` set ?T"
    and c: "concat (map snd (written oc)) = map (\<lambda>t. snd (snd t)) ?T"
    using ingest_writes [OF ing] by (simp_all add: oc mm_init_def)
  have d: "\<forall>t\<in>set ?T. 1 \<le> fst t \<and> 1 \<le> fst (snd t) \<longrightarrow>
       unat (fst t - 1) = unat (fst t) - 1 \<and> unat (fst (snd t) - 1) = unat (fst (snd t)) - 1"
    by (simp add: unat_minus_one_nonzero)
  have e: "sample_lines (summary oc) =
         map (\<lambda>k. let t = ?T ! (rng k mod length ?T)
                   in (fst t, fst (snd t), snd (snd t), rd k, rd k = snd (snd t))) [0..<10]"
    if big: "10000 < length ?T"
  proof -
    have len: "length (points s) = length ?T" by (simp add: pts)
    have pos: "0 < length ?T" using big by linarith
    have nth: "points s ! (rng k mod length ?T) = decrement (?T ! (rng k mod length ?T))" for k
      using pos by (simp add: pts)
    have "sample_lines (summary oc) = sample_lines (verification (points s) rng rd)"
      by (simp add: oc)
    also have "\<dots> = map (\<lambda>k. (fst (points s ! (rng k mod length (points s))) + 1,
                      fst (snd (points s ! (rng k mod length (points s)))) + 1,
                      snd (snd (points s ! (rng k mod length (points s)))), rd k,
                      rd k = snd (snd (points s ! (rng k mod length (points s)))))) [0..<10]"
      using big by (intro verification_samples(4)) (simp add: len)
    also have "\<dots> = map (\<lambda>k. let t = ?T ! (rng k mod length ?T)
                   in (fst t, fst (snd t), snd (snd t), rd k, rd k = snd (snd t))) [0..<10]"
      unfolding len nth by (simp add: decrement_def Let_def)
    finally show ?thesis .
  qed
  from a b c d e show ?thesis by blast
qed

theorem one_based_coordinates_witness:
  "\<exists>oc. mm2h5_main big_args rng_id rd_zero = Inr oc \<and>
     stored oc = replicate 10001 (2, 1, 7) \<and>
     \<Union> (fst ` set (written oc)) = {(2, 1)} \<and>
     sample_lines (summary oc) = replicate 10 (3, 2, 7, 0, False)"
proof -
  let ?oc = "\<lparr>exit_code = EXIT_SUCCESS, stored = replicate 10001 (2, 1, 7),
          written = [({(2, 1)}, replicate 10001 7)],
          summary = verification (replicate 10001 (2, 1, 7)) rng_id rd_zero\<rparr>"
  have run: "mm2h5_main big_args rng_id rd_zero = Inr ?oc" by (rule big_run)
  have tf: "txt_file big_args = Some (Triplet 4 4 0 # replicate 10001 (Triplet 3 2 7))"
    by (simp add: big_args_def)
  have header: "read_header (Triplet 4 4 0 # replicate 10001 (Triplet 3 2 7)) 0 0 =
                  (4, 4, replicate 10001 (Triplet 3 2 7))"
    by simp
  note t = one_based_coordinates [OF run tf header, unfolded triplets_of_replicate length_replicate]
  have big: "(10000::nat) < 10001" by simp
  from t big have "sample_lines (summary ?oc) =
      map (\<lambda>k. let t = replicate 10001 (3, 2, 7) ! (rng_id k mod 10001)
                in (fst t, fst (snd t), snd (snd t), rd_zero k, rd_zero k = snd (snd t))) [0..<10]"
    by blast
  also have "\<dots> = replicate 10 (3, 2, 7, 0, False)"
    by (simp add: rd_zero_def Let_def map_replicate_const)
  finally have "sample_lines (summary ?oc) = replicate 10 (3, 2, 7, 0, False)" .
  then show ?thesis
    using run by (intro exI [of _ ?oc]) simp
qed

end
